theory Spec2Isabelle
  imports Main
begin

section \<open>The board: mineSweeper.py, lines 60--108\<close>

text \<open>
  \<^verbatim>\<open>class FieldType(IntEnum)\<close>: the nine numbered kinds, \<^verbatim>\<open>Mine = 9\<close> and
  \<^verbatim>\<open>Unknown = 10\<close>.
\<close>

datatype FieldType =
    Numbered0 | Numbered1 | Numbered2 | Numbered3 | Numbered4
  | Numbered5 | Numbered6 | Numbered7 | Numbered8
  | Mine | Unknown

text \<open>\<^verbatim>\<open>int(t)\<close> on a member of the enumeration.\<close>

fun int_of_FieldType :: "FieldType \<Rightarrow> int" where
  "int_of_FieldType Numbered0 = 0"
| "int_of_FieldType Numbered1 = 1"
| "int_of_FieldType Numbered2 = 2"
| "int_of_FieldType Numbered3 = 3"
| "int_of_FieldType Numbered4 = 4"
| "int_of_FieldType Numbered5 = 5"
| "int_of_FieldType Numbered6 = 6"
| "int_of_FieldType Numbered7 = 7"
| "int_of_FieldType Numbered8 = 8"
| "int_of_FieldType Mine = 9"
| "int_of_FieldType Unknown = 10"

text \<open>
  \<^verbatim>\<open>FieldType(n)\<close>: the member whose value is \<open>n\<close>; Python raises ValueError for
  every other integer, which is \<open>None\<close> here.
\<close>

definition FieldType_of_int :: "int \<Rightarrow> FieldType option" where
  "FieldType_of_int n =
     (if n = 0 then Some Numbered0 else if n = 1 then Some Numbered1
      else if n = 2 then Some Numbered2 else if n = 3 then Some Numbered3
      else if n = 4 then Some Numbered4 else if n = 5 then Some Numbered5
      else if n = 6 then Some Numbered6 else if n = 7 then Some Numbered7
      else if n = 8 then Some Numbered8 else if n = 9 then Some Mine
      else if n = 10 then Some Unknown else None)"

text \<open>
  A \<^verbatim>\<open>Field\<close> object is created once per grid position and is hashed by identity, so
  it is named by its coordinates \<open>(x, y)\<close>.
\<close>

type_synonym cell = "int \<times> int"

text \<open>
  \<^verbatim>\<open>class Region\<close>. The Python \<^verbatim>\<open>set\<close> of fields is a list without duplicates:
  its order is the order in which a \<^verbatim>\<open>for\<close> loop visits the set (which Python leaves
  open), \<^verbatim>\<open>len\<close> is \<open>length\<close>, and \<^verbatim>\<open>==\<close> on two such sets compares \<open>set\<close> of the
  lists. (The attribute \<^verbatim>\<open>fields\<close> is \<open>fields_r\<close>: a record cannot have a field of
  that name.)
\<close>

record Region =
  mines_min :: int
  mines_max :: int
  fields_r :: "cell list"

text \<open>
  The module's global state: \<^verbatim>\<open>width\<close>, \<^verbatim>\<open>height\<close> (never assigned after start-up),
  the \<^verbatim>\<open>type\<close> attribute of every object of \<^verbatim>\<open>playarea\<close>, and \<^verbatim>\<open>mines_left\<close>.
\<close>

record state =
  width :: int
  height :: int
  playarea :: "cell \<Rightarrow> FieldType"
  mines_left :: int

text \<open>
  Modelled from the spec: the oracle, \<^verbatim>\<open>minefield.sweep_cell(x, y)\<close> of the module
  \<^verbatim>\<open>mineField\<close>, which is not part of the sources. The spec says it "returns either an
  integer 0--8 (count of mines among up-to-8 neighbors) or a distinguished `was a mine'
  result". \<open>Count n\<close> is an integer handed back to \<^verbatim>\<open>sweep_field\<close>; \<open>Boom\<close> is the
  "was a mine" result: the call of line 111 raises, or hands back something that
  \<^verbatim>\<open>FieldType(...)\<close> of line 112 rejects by raising; either way \<^verbatim>\<open>sweep_field\<close> ends by an
  exception before the assignment. The oracle is a parameter of every function that
  sweeps.
\<close>

datatype oracle_reply = Count int | Boom

type_synonym sweep_oracle = "cell \<Rightarrow> oracle_reply"

text \<open>
  Exceptions, which end a call without a return value: the one of the oracle's
  "was a mine", the ValueError of \<^verbatim>\<open>FieldType(n)\<close>, the IndexError of a list access out
  of range. A result \<open>Inl e\<close> is a raised exception, \<open>Inr v\<close> a normal return.
\<close>

datatype error = Explosion | ValueError | IndexError

section \<open>sweep\_field and check\_region: lines 110--138\<close>

text \<open>
  \<^verbatim>\<open>
  def sweep_field(field):
      adjacent_mines = minefield.sweep_cell(field.x, field.y)
      field.type = FieldType(adjacent_mines)
  \<close>
\<close>

definition sweep_field :: "sweep_oracle \<Rightarrow> state \<Rightarrow> cell \<Rightarrow> error + state" where
  "sweep_field orc st field =
     (case orc field of
        Boom \<Rightarrow> Inl Explosion
      | Count adjacent_mines \<Rightarrow>
          (case FieldType_of_int adjacent_mines of
             None \<Rightarrow> Inl ValueError
           | Some t \<Rightarrow> Inr (st\<lparr>playarea := (playarea st)(field := t)\<rparr>)))"

text \<open>The loop \<^verbatim>\<open>for field in region.fields: sweep_field(field)\<close>.\<close>

fun sweep_fields :: "sweep_oracle \<Rightarrow> state \<Rightarrow> cell list \<Rightarrow> error + state" where
  "sweep_fields orc st [] = Inr st"
| "sweep_fields orc st (field # rest) =
     (case sweep_field orc st field of
        Inl e \<Rightarrow> Inl e
      | Inr st' \<Rightarrow> sweep_fields orc st' rest)"

text \<open>
  The loop of lines 133--136: \<^verbatim>\<open>field.type = FieldType.Mine\<close> and
  \<^verbatim>\<open>mines_left = mines_left - 1\<close> for every field.
\<close>

fun mark_fields :: "state \<Rightarrow> cell list \<Rightarrow> state" where
  "mark_fields st [] = st"
| "mark_fields st (field # rest) =
     mark_fields (st\<lparr>playarea := (playarea st)(field := Mine),
                     mines_left := mines_left st - 1\<rparr>) rest"

text \<open>
  \<^verbatim>\<open>check_region\<close> returns the flag "the play area was modified" and leaves the new
  state behind.
\<close>

definition check_region :: "sweep_oracle \<Rightarrow> state \<Rightarrow> Region \<Rightarrow> error + (bool \<times> state)" where
  "check_region orc st region =
     (if length (fields_r region) = 0 \<or> mines_min region \<noteq> mines_max region then
        Inr (False, st)
      else if mines_min region = 0 then
        (case sweep_fields orc st (fields_r region) of
           Inl e \<Rightarrow> Inl e
         | Inr st' \<Rightarrow> Inr (True, st'))
      else if mines_min region = int (length (fields_r region)) then
        Inr (True, mark_fields st (fields_r region))
      else Inr (False, st))"

section \<open>find\_adjacent\_type and find\_regions: lines 114--173\<close>

text \<open>\<^verbatim>\<open>range(a, b)\<close> on integers: \<open>a, a + 1, ..., b - 1\<close>, empty when \<open>b \<le> a\<close>.\<close>

definition py_range :: "int \<Rightarrow> int \<Rightarrow> int list" where
  "py_range a b = [a..b - 1]"

text \<open>
  \<^verbatim>\<open>
  def find_adjacent_type(x, y, type):
      adjacent = set()
      for scan_x in range(max(x - 1, 0), min(x + 2, width)):
          for scan_y in range(max(y - 1, 0), min(y + 2, height)):
              if (False == (scan_x == x and scan_y == y)) and (playarea[scan_x][scan_y].type == type):
                  adjacent.add(playarea[scan_x][scan_y])
      return adjacent
  \<close>
\<close>

definition find_adjacent_type :: "state \<Rightarrow> int \<Rightarrow> int \<Rightarrow> FieldType \<Rightarrow> cell list" where
  "find_adjacent_type st x y t =
     [(scan_x, scan_y).
        scan_x \<leftarrow> py_range (max (x - 1) 0) (min (x + 2) (width st)),
        scan_y \<leftarrow> py_range (max (y - 1) 0) (min (y + 2) (height st)),
        \<not> (scan_x = x \<and> scan_y = y) \<and> playarea st (scan_x, scan_y) = t]"

text \<open>
  The body of the two loops of \<^verbatim>\<open>find_regions\<close> (lines 145--172) at the cell \<open>(x, y)\<close>.
  The loop variables are \<^verbatim>\<open>playarea_modified\<close>, \<^verbatim>\<open>regions\<close> and the global state; every
  \<^verbatim>\<open>continue\<close> hands them on unchanged.
\<close>

definition find_regions_cell ::
  "sweep_oracle \<Rightarrow> bool \<times> Region list \<times> state \<Rightarrow> cell \<Rightarrow> error + (bool \<times> Region list \<times> state)"
where
  "find_regions_cell orc acc c =
     (case acc of (playarea_modified, regions, st) \<Rightarrow>
      case c of (x, y) \<Rightarrow>
        if playarea st (x, y) = Mine \<or> playarea st (x, y) = Unknown then Inr acc
        else
          let num_mines = int_of_FieldType (playarea st (x, y));
              adjacent_unknown = find_adjacent_type st x y Unknown
          in if length adjacent_unknown = 0 then Inr acc
          else
            let adjacent_mines = int (length (find_adjacent_type st x y Mine));
                mines_remaining = num_mines - adjacent_mines;
                region = \<lparr>mines_min = mines_remaining, mines_max = mines_remaining,
                          fields_r = adjacent_unknown\<rparr>
            in if \<exists>other_region \<in> set regions. set (fields_r region) = set (fields_r other_region)
               then Inr acc
               else
                 (case check_region orc st region of
                    Inl e \<Rightarrow> Inl e
                  | Inr (modified, st') \<Rightarrow>
                      Inr (playarea_modified \<or> modified, regions @ [region], st')))"

fun find_regions_loop ::
  "sweep_oracle \<Rightarrow> bool \<times> Region list \<times> state \<Rightarrow> cell list \<Rightarrow> error + (bool \<times> Region list \<times> state)"
where
  "find_regions_loop orc acc [] = Inr acc"
| "find_regions_loop orc acc (c # cs) =
     (case find_regions_cell orc acc c of
        Inl e \<Rightarrow> Inl e
      | Inr acc' \<Rightarrow> find_regions_loop orc acc' cs)"

text \<open>
  The cells in the order of \<^verbatim>\<open>for y in range(0, height): for x in range(0, width)\<close>.
\<close>

definition scan_order :: "state \<Rightarrow> cell list" where
  "scan_order st = [(x, y). y \<leftarrow> py_range 0 (height st), x \<leftarrow> py_range 0 (width st)]"

definition find_regions :: "sweep_oracle \<Rightarrow> state \<Rightarrow> error + (bool \<times> Region list \<times> state)" where
  "find_regions orc st = find_regions_loop orc (False, [], st) (scan_order st)"

section \<open>split\_regions: lines 175--234\<close>

definition MAX_RECURSION_DEPTH :: int where
  "MAX_RECURSION_DEPTH = 4"

text \<open>Lines 184, 189 and 190: intersection and the two differences.\<close>

definition regionC_fields :: "Region \<Rightarrow> Region \<Rightarrow> cell list" where
  "regionC_fields regionA regionB = filter (\<lambda>f. f \<in> set (fields_r regionB)) (fields_r regionA)"

definition regionD_fields :: "Region \<Rightarrow> Region \<Rightarrow> cell list" where
  "regionD_fields regionA regionB = filter (\<lambda>f. f \<notin> set (fields_r regionB)) (fields_r regionA)"

definition regionE_fields :: "Region \<Rightarrow> Region \<Rightarrow> cell list" where
  "regionE_fields regionA regionB = filter (\<lambda>f. f \<notin> set (fields_r regionA)) (fields_r regionB)"

text \<open>Lines 196--205: the bounds of the three derived regions.\<close>

definition regionC_mines_max :: "Region \<Rightarrow> Region \<Rightarrow> int" where
  "regionC_mines_max regionA regionB = min (mines_max regionA) (mines_max regionB)"

definition regionC_mines_min :: "Region \<Rightarrow> Region \<Rightarrow> int" where
  "regionC_mines_min regionA regionB =
     max (max (mines_min regionA - int (length (regionD_fields regionA regionB)))
              (mines_min regionB - int (length (regionE_fields regionA regionB)))) 0"

definition regionC :: "Region \<Rightarrow> Region \<Rightarrow> Region" where
  "regionC regionA regionB =
     \<lparr>mines_min = regionC_mines_min regionA regionB,
      mines_max = regionC_mines_max regionA regionB,
      fields_r = regionC_fields regionA regionB\<rparr>"

definition regionD :: "Region \<Rightarrow> Region \<Rightarrow> Region" where
  "regionD regionA regionB =
     \<lparr>mines_min = max (mines_min regionA - regionC_mines_max regionA regionB) 0,
      mines_max = max (mines_max regionA - regionC_mines_min regionA regionB) 0,
      fields_r = regionD_fields regionA regionB\<rparr>"

definition regionE :: "Region \<Rightarrow> Region \<Rightarrow> Region" where
  "regionE regionA regionB =
     \<lparr>mines_min = max (mines_min regionB - regionC_mines_max regionA regionB) 0,
      mines_max = max (mines_max regionB - regionC_mines_min regionA regionB) 0,
      fields_r = regionE_fields regionA regionB\<rparr>"

text \<open>
  Lines 207--216: \<^verbatim>\<open>check_region\<close> on C, then D, then E, each on the state the one
  before left, the three flags joined by \<^verbatim>\<open>|\<close>.
\<close>

definition check_CDE ::
  "sweep_oracle \<Rightarrow> state \<Rightarrow> Region \<Rightarrow> Region \<Rightarrow> error + (bool \<times> state)"
where
  "check_CDE orc st regionA regionB =
     (case check_region orc st (regionC regionA regionB) of
        Inl e \<Rightarrow> Inl e
      | Inr (mC, stC) \<Rightarrow>
     (case check_region orc stC (regionD regionA regionB) of
        Inl e \<Rightarrow> Inl e
      | Inr (mD, stD) \<Rightarrow>
     (case check_region orc stD (regionE regionA regionB) of
        Inl e \<Rightarrow> Inl e
      | Inr (mE, stE) \<Rightarrow> Inr ((False \<or> mC) \<or> mD \<or> mE, stE))))"

text \<open>
  \<^verbatim>\<open>split_regions(regions, depth)\<close> changes the list \<^verbatim>\<open>regions\<close> in place and puts it
  back, so the list is handed in and out beside the state. \<open>split_loopA\<close> is the loop
  over \<^verbatim>\<open>regionA_index\<close>, whose \<^verbatim>\<open>range(0, len(regions))\<close> is fixed when the loop starts
  (\<open>stopA\<close>); \<open>split_loopB\<close> is the loop over \<^verbatim>\<open>regionB_index\<close>, whose range is fixed
  at each round of the outer loop (\<open>stopB\<close>). A list access out of range is the
  IndexError of Python.
\<close>

function split_regions ::
    "sweep_oracle \<Rightarrow> Region list \<Rightarrow> int \<Rightarrow> state \<Rightarrow> error + (bool \<times> Region list \<times> state)"
  and split_loopA ::
    "sweep_oracle \<Rightarrow> int \<Rightarrow> nat \<Rightarrow> nat \<Rightarrow> Region list \<Rightarrow> state \<Rightarrow> error + (bool \<times> Region list \<times> state)"
  and split_loopB ::
    "sweep_oracle \<Rightarrow> int \<Rightarrow> nat \<Rightarrow> nat \<Rightarrow> nat \<Rightarrow> Region list \<Rightarrow> state \<Rightarrow> error + (bool \<times> Region list \<times> state)"
where
  "split_regions orc regions depth st =
     (if depth \<ge> MAX_RECURSION_DEPTH then Inr (False, regions, st)
      else split_loopA orc depth (length regions) 0 regions st)"
| "split_loopA orc depth stopA regionA_index regions st =
     (if regionA_index \<ge> stopA then Inr (False, regions, st)
      else
        (case split_loopB orc depth regionA_index (length regions) (regionA_index + 1) regions st of
           Inl e \<Rightarrow> Inl e
         | Inr (playarea_modified, regions', st') \<Rightarrow>
             if playarea_modified then Inr (True, regions', st')
             else split_loopA orc depth stopA (regionA_index + 1) regions' st'))"
| "split_loopB orc depth regionA_index stopB regionB_index regions st =
     (if regionB_index \<ge> stopB then Inr (False, regions, st)
      else if \<not> (regionA_index < length regions \<and> regionB_index < length regions) then Inl IndexError
      else
        let regionA = regions ! regionA_index;
            regionB = regions ! regionB_index
        in if length (regionC_fields regionA regionB) = 0 then
             split_loopB orc depth regionA_index stopB (regionB_index + 1) regions st
           else if length (regionD_fields regionA regionB) = 0
                   \<and> length (regionE_fields regionA regionB) = 0 then
             split_loopB orc depth regionA_index stopB (regionB_index + 1) regions st
           else
             (case check_CDE orc st regionA regionB of
                Inl e \<Rightarrow> Inl e
              | Inr (playarea_modified, st1) \<Rightarrow>
                  if playarea_modified then Inr (True, regions, st1)
                  else
                    (case split_regions orc
                            ((regions @ [regionC regionA regionB])
                               [regionA_index := regionD regionA regionB,
                                regionB_index := regionE regionA regionB])
                            (depth + 1) st1 of
                       Inl e \<Rightarrow> Inl e
                     | Inr (playarea_modified', regions', st2) \<Rightarrow>
                         if \<not> (regionB_index < length regions' \<and> regionA_index < length regions')
                         then Inl IndexError
                         else
                           let regions'' = butlast (regions'[regionB_index := regionB,
                                                             regionA_index := regionA])
                           in if playarea_modified' then Inr (True, regions'', st2)
                              else split_loopB orc depth regionA_index stopB (regionB_index + 1)
                                     regions'' st2)))"
  by pat_completeness auto
termination
  apply (relation "measures [
     (\<lambda>v. case v of
         Inl (orc, regions, depth, st) \<Rightarrow> 3 * nat (MAX_RECURSION_DEPTH - depth)
       | Inr (Inl (orc, depth, stopA, a, regions, st)) \<Rightarrow> 3 * nat (MAX_RECURSION_DEPTH - (depth + 1)) + 2
       | Inr (Inr (orc, depth, a, stopB, b, regions, st)) \<Rightarrow> 3 * nat (MAX_RECURSION_DEPTH - (depth + 1)) + 1),
     (\<lambda>v. case v of
         Inl (orc, regions, depth, st) \<Rightarrow> 0
       | Inr (Inl (orc, depth, stopA, a, regions, st)) \<Rightarrow> stopA - a
       | Inr (Inr (orc, depth, a, stopB, b, regions, st)) \<Rightarrow> stopB - b)]")
  apply (auto simp: MAX_RECURSION_DEPTH_def)
  done


declare split_regions.simps [simp del] split_loopA.simps [simp del] split_loopB.simps [simp del]

section \<open>The main loop: lines 236--284\<close>

definition find_remaining :: "state \<Rightarrow> cell list" where
  "find_remaining st = [(x, y). (x, y) \<leftarrow> scan_order st, playarea st (x, y) = Unknown]"

text \<open>
  One round of \<^verbatim>\<open>while True\<close> (\<^verbatim>\<open>visualize\<close> only prints). The flag returned is
  "the loop was left by \<^verbatim>\<open>break\<close>"; \<open>guess\<close> is the value \<^verbatim>\<open>randint(0, len(remaining) - 1)\<close>
  returns in this round, which lies in that range.
\<close>

definition solver_round :: "sweep_oracle \<Rightarrow> int \<Rightarrow> state \<Rightarrow> error + (bool \<times> state)" where
  "solver_round orc guess st =
     (case find_regions orc st of
        Inl e \<Rightarrow> Inl e
      | Inr (playarea_modified, regions, st1) \<Rightarrow>
          if playarea_modified then Inr (False, st1)
          else
            (case split_regions orc regions 0 st1 of
               Inl e \<Rightarrow> Inl e
             | Inr (playarea_modified', regions', st2) \<Rightarrow>
                 if playarea_modified' then Inr (False, st2)
                 else
                   let remaining = find_remaining st2 in
                   (case (if mines_left st2 = 0
                          then (case sweep_fields orc st2 remaining of
                                  Inl e \<Rightarrow> Inl e
                                | Inr st3 \<Rightarrow> Inr ([], st3))
                          else Inr (remaining, st2)) of
                      Inl e \<Rightarrow> Inl e
                    | Inr (remaining', st3) \<Rightarrow>
                        if length remaining' = 0 then Inr (True, st3)
                        else if 0 \<le> guess \<and> guess < int (length remaining') then
                          (case sweep_field orc st3 (remaining' ! nat guess) of
                             Inl e \<Rightarrow> Inl e
                           | Inr st4 \<Rightarrow> Inr (False, st4))
                        else Inl IndexError)))"

text \<open>
  The loop itself; \<open>guesses k\<close> is what \<^verbatim>\<open>randint\<close> returns in round \<open>k\<close>. \<open>None\<close> is a
  run that never leaves the loop.
\<close>

partial_function (option) solver_loop ::
  "sweep_oracle \<Rightarrow> (nat \<Rightarrow> int) \<Rightarrow> nat \<Rightarrow> state \<Rightarrow> (error + state) option"
where
  "solver_loop orc guesses k st =
     (case solver_round orc (guesses k) st of
        Inl e \<Rightarrow> Some (Inl e)
      | Inr r \<Rightarrow> if fst r then Some (Inr (snd r))
                 else solver_loop orc guesses (Suc k) (snd r))"

section \<open>Notions used in the statements\<close>

text \<open>
  The grid neighbours of a cell: the cells \<^verbatim>\<open>find_adjacent_type\<close> scans, whatever their
  type.
\<close>

definition neighbours :: "state \<Rightarrow> cell \<Rightarrow> cell list" where
  "neighbours st c =
     [(scan_x, scan_y).
        scan_x \<leftarrow> py_range (max (fst c - 1) 0) (min (fst c + 2) (width st)),
        scan_y \<leftarrow> py_range (max (snd c - 1) 0) (min (snd c + 2) (height st)),
        \<not> (scan_x = fst c \<and> scan_y = snd c)]"

text \<open>A numbered type: one of \<open>Numbered0\<close>, ..., \<open>Numbered8\<close>.\<close>

definition numbered :: "FieldType \<Rightarrow> bool" where
  "numbered t = (t \<noteq> Mine \<and> t \<noteq> Unknown)"

text \<open>
  A mine layout is the set \<open>M\<close> of the cells that hold a mine. \<open>mines_in M fs\<close> counts the
  mines among the fields \<open>fs\<close>; a region is satisfied by \<open>M\<close> when that count lies within
  its bounds.
\<close>

definition mines_in :: "cell set \<Rightarrow> cell list \<Rightarrow> int" where
  "mines_in M fs = int (length (filter (\<lambda>f. f \<in> M) fs))"

definition satisfies :: "cell set \<Rightarrow> Region \<Rightarrow> bool" where
  "satisfies M r =
     (mines_min r \<le> mines_in M (fields_r r) \<and> mines_in M (fields_r r) \<le> mines_max r)"

text \<open>
  The board is consistent with the layout \<open>M\<close>: every cell marked \<open>Mine\<close> holds a mine,
  and every numbered cell holds none and shows the number of mines among its neighbours.
\<close>

definition consistent :: "cell set \<Rightarrow> state \<Rightarrow> bool" where
  "consistent M st =
     (\<forall>c \<in> set (scan_order st).
        (playarea st c = Mine \<longrightarrow> c \<in> M) \<and>
        (numbered (playarea st c) \<longrightarrow>
           c \<notin> M \<and> int_of_FieldType (playarea st c) = mines_in M (neighbours st c)))"

text \<open>
  The oracle answers for the layout \<open>M\<close>: "was a mine" on a mine, the number of mines
  among the neighbours elsewhere.
\<close>

definition honest :: "cell set \<Rightarrow> state \<Rightarrow> sweep_oracle \<Rightarrow> bool" where
  "honest M st orc =
     (\<forall>c \<in> set (scan_order st).
        orc c = (if c \<in> M then Boom else Count (mines_in M (neighbours st c))))"

text \<open>The oracle answers every field of \<open>fs\<close> with a count from 0 to 8.\<close>

definition answers_count :: "sweep_oracle \<Rightarrow> cell list \<Rightarrow> bool" where
  "answers_count orc fs =
     (\<forall>f \<in> set fs. case orc f of Count n \<Rightarrow> 0 \<le> n \<and> n \<le> 8 | Boom \<Rightarrow> False)"

text \<open>The type a field gets when it is swept, if the sweep sets one.\<close>

definition revealed :: "sweep_oracle \<Rightarrow> cell \<Rightarrow> FieldType option" where
  "revealed orc c = (case orc c of Count n \<Rightarrow> FieldType_of_int n | Boom \<Rightarrow> None)"

text \<open>The region lines 149--157 build at the cell \<open>(x, y)\<close>.\<close>

definition region_at :: "state \<Rightarrow> int \<Rightarrow> int \<Rightarrow> Region" where
  "region_at st x y =
     \<lparr>mines_min = int_of_FieldType (playarea st (x, y)) - int (length (find_adjacent_type st x y Mine)),
      mines_max = int_of_FieldType (playarea st (x, y)) - int (length (find_adjacent_type st x y Mine)),
      fields_r = find_adjacent_type st x y Unknown\<rparr>"

text \<open>The square of cells, at most three by three, that \<^verbatim>\<open>find_adjacent_type\<close> scans around a cell.\<close>

definition block :: "state \<Rightarrow> cell \<Rightarrow> cell list" where
  "block st c = List.product (py_range (max (fst c - 1) 0) (min (fst c + 2) (width st)))
                             (py_range (max (snd c - 1) 0) (min (snd c + 2) (height st)))"

text \<open>
  A cell from which a region can be extracted: it is numbered and has an \<open>Unknown\<close>
  neighbour.
\<close>

definition extractable :: "state \<Rightarrow> cell \<Rightarrow> bool" where
  "extractable st c =
     (numbered (playarea st c) \<and> find_adjacent_type st (fst c) (snd c) Unknown \<noteq> [])"

section \<open>A concrete board\<close>

text \<open>
  The board of the comment that opens mineSweeper.py,
  \<^verbatim>\<open>
  1 ? 2
  ? ? ?
  ? 4 ?
  \<close>
  with the one mine layout it admits, the oracle of that layout, and the three regions
  of its numbered cells.
\<close>

definition board1 :: state where
  "board1 =
     \<lparr>width = 3, height = 3,
      playarea = (\<lambda>c. if c = (0, 0) then Numbered1 else if c = (2, 0) then Numbered2
                      else if c = (1, 2) then Numbered4 else Unknown),
      mines_left = 4\<rparr>"

definition mines1 :: "cell set" where
  "mines1 = {(1, 1), (2, 1), (0, 2), (2, 2)}"

definition orc1 :: sweep_oracle where
  "orc1 = (\<lambda>c. if c \<in> mines1 then Boom else Count (mines_in mines1 (neighbours board1 c)))"

definition R1 :: Region where
  "R1 = \<lparr>mines_min = 1, mines_max = 1, fields_r = [(0, 1), (1, 0), (1, 1)]\<rparr>"

definition R2 :: Region where
  "R2 = \<lparr>mines_min = 2, mines_max = 2, fields_r = [(1, 0), (1, 1), (2, 1)]\<rparr>"

definition R4 :: Region where
  "R4 = \<lparr>mines_min = 4, mines_max = 4, fields_r = [(0, 1), (0, 2), (1, 1), (2, 1), (2, 2)]\<rparr>"

text \<open>Two regions for \<^verbatim>\<open>check_region\<close>: one to sweep, one to mark.\<close>

definition Z3 :: Region where
  "Z3 = \<lparr>mines_min = 0, mines_max = 0, fields_r = [(0, 1), (1, 0)]\<rparr>"

definition F2 :: Region where
  "F2 = \<lparr>mines_min = 2, mines_max = 2, fields_r = [(1, 1), (2, 1)]\<rparr>"

text \<open>
  A board of five columns and two rows,
  \<^verbatim>\<open>
  ? ? ? ? ?
  ? 3 ? 3 ?
  \<close>
  with a mine layout that fits it, the oracle of that layout, and the regions of its two
  numbered cells.
\<close>

definition board5 :: state where
  "board5 =
     \<lparr>width = 5, height = 2,
      playarea = (\<lambda>c. if c = (1, 1) then Numbered3 else if c = (3, 1) then Numbered3 else Unknown),
      mines_left = 6\<rparr>"

definition mines5 :: "cell set" where
  "mines5 = {(0, 0), (0, 1), (1, 0), (3, 0), (4, 0), (4, 1)}"

definition orc5 :: sweep_oracle where
  "orc5 = (\<lambda>c. if c \<in> mines5 then Boom else Count (mines_in mines5 (neighbours board5 c)))"

definition A5 :: Region where
  "A5 = \<lparr>mines_min = 3, mines_max = 3, fields_r = [(0, 0), (0, 1), (1, 0), (2, 0), (2, 1)]\<rparr>"

definition B5 :: Region where
  "B5 = \<lparr>mines_min = 3, mines_max = 3, fields_r = [(2, 0), (2, 1), (3, 0), (4, 0), (4, 1)]\<rparr>"

text \<open>
  A board of one row whose left cell shows 0 beside an unknown cell, with an oracle that
  always answers 0; and a board of three rows whose two cells that show 1 have the same
  two unknown neighbours:
  \<^verbatim>\<open>
  0 ?        ? ?
             1 1
             0 0
  \<close>
\<close>

definition boardZ :: state where
  "boardZ = \<lparr>width = 2, height = 1,
             playarea = (\<lambda>c. if c = (0, 0) then Numbered0 else Unknown),
             mines_left = 0\<rparr>"

definition orcZ :: sweep_oracle where
  "orcZ = (\<lambda>c. Count 0)"

definition boardD :: state where
  "boardD = \<lparr>width = 2, height = 3,
             playarea = (\<lambda>c. if c = (0, 1) \<or> c = (1, 1) then Numbered1
                             else if c = (0, 2) \<or> c = (1, 2) then Numbered0 else Unknown),
             mines_left = 1\<rparr>"

text \<open>
  A board of one row with every mine marked, \<^verbatim>\<open>1 x ?\<close>, and \<open>mines_left = 0\<close>; and a
  board of two unknown cells whose left cell holds the one mine.
\<close>

definition boardW :: state where
  "boardW = \<lparr>width = 3, height = 1,
             playarea = (\<lambda>c. if c = (0, 0) then Numbered1 else if c = (1, 0) then Mine else Unknown),
             mines_left = 0\<rparr>"

definition orcW :: sweep_oracle where
  "orcW = (\<lambda>c. if c = (1, 0) then Boom else Count 1)"

definition boardB :: state where
  "boardB = \<lparr>width = 2, height = 1, playarea = (\<lambda>c. Unknown), mines_left = 1\<rparr>"

definition orcB :: sweep_oracle where
  "orcB = (\<lambda>c. if c = (0, 0) then Boom else Count 1)"

text \<open>
  Two oracles that report a mine where the board suggests none: on the cell right of the 0
  of the board of one row, and on the cell \<open>(0, 1)\<close> of the board of three columns.
\<close>

definition orcT :: sweep_oracle where
  "orcT = (\<lambda>c. if c = (1, 0) then Boom else Count 0)"

definition orcY :: sweep_oracle where
  "orcY = (\<lambda>c. if c = (0, 1) then Boom else Count 1)"

section \<open>Evaluation on concrete inputs\<close>

lemmas board_eval =
  board1_def orc1_def mines1_def mines_in_def neighbours_def scan_order_def py_range_def
  upto.simps FieldType_of_int_def sweep_field_def check_region_def Let_def

lemmas split_eval =
  split_regions.simps split_loopA.simps split_loopB.simps MAX_RECURSION_DEPTH_def
  regionC_fields_def regionD_fields_def regionE_fields_def regionC_def regionD_def regionE_def
  regionC_mines_min_def regionC_mines_max_def check_CDE_def R1_def R2_def R4_def

lemmas find_eval =
  find_regions_def find_regions_cell_def find_adjacent_type_def set_eq_subset

lemma board1_consistent: "consistent mines1 board1"
  by (simp add: consistent_def numbered_def board_eval)

lemma board1_honest: "honest mines1 board1 orc1"
  by (simp add: honest_def board_eval)

lemma board1_regions: "find_regions orc1 board1 = Inr (False, [R1, R2, R4], board1)"
  by (simp add: find_eval board_eval R1_def R2_def R4_def)

section \<open>check\_region\<close>

lemma sweep_field_revealed:
  "sweep_field orc st f =
     (case revealed orc f of
        None \<Rightarrow> Inl (if orc f = Boom then Explosion else ValueError)
      | Some t \<Rightarrow> Inr (st\<lparr>playarea := (playarea st)(f := t)\<rparr>))"
  by (simp add: sweep_field_def revealed_def split: oracle_reply.splits option.splits)

lemma sweep_fields_ok:
  "\<forall>f \<in> set fs. revealed orc f \<noteq> None \<Longrightarrow>
   sweep_fields orc st fs =
     Inr (st\<lparr>playarea := (\<lambda>c. if c \<in> set fs then the (revealed orc c) else playarea st c)\<rparr>)"
proof (induction fs arbitrary: st)
  case Nil
  then show ?case by simp
next
  case (Cons f fs)
  from Cons.prems obtain t where t: "revealed orc f = Some t" by auto
  have "sweep_fields orc st (f # fs) = sweep_fields orc (st\<lparr>playarea := (playarea st)(f := t)\<rparr>) fs"
    by (simp add: sweep_field_revealed t)
  also have "\<dots> = Inr (st\<lparr>playarea := (playarea st)(f := t)\<rparr>
                     \<lparr>playarea := (\<lambda>c. if c \<in> set fs then the (revealed orc c)
                                       else playarea (st\<lparr>playarea := (playarea st)(f := t)\<rparr>) c)\<rparr>)"
    using Cons.prems by (intro Cons.IH) simp
  also have "\<dots> = Inr (st\<lparr>playarea := (\<lambda>c. if c \<in> set (f # fs) then the (revealed orc c) else playarea st c)\<rparr>)"
    using t by (intro arg_cong[where f=Inr] state.equality ext) auto
  finally show ?case .
qed

lemma sweep_fields_Inr_revealed:
  "sweep_fields orc st fs = Inr st' \<Longrightarrow> \<forall>f \<in> set fs. revealed orc f \<noteq> None"
proof (induction fs arbitrary: st)
  case Nil
  then show ?case by simp
next
  case (Cons f fs)
  then show ?case
    by (auto simp: sweep_field_revealed split: option.splits sum.splits)
qed

lemma mark_fields_eq:
  "mark_fields st fs =
     st\<lparr>playarea := (\<lambda>c. if c \<in> set fs then Mine else playarea st c),
        mines_left := mines_left st - int (length fs)\<rparr>"
proof (induction fs arbitrary: st)
  case Nil
  then show ?case by simp
next
  case (Cons f fs)
  show ?case
    unfolding mark_fields.simps Cons.IH
    by (intro state.equality ext) auto
qed


text \<open>
  C5 (applier precision). \<^verbatim>\<open>check_region\<close> changes nothing and returns \<open>False\<close> whenever
  the region has no fields, or its bounds differ, or the common bound is neither 0 nor
  the number of fields. So it sweeps or marks only for collapsed bounds whose value is
  exactly 0 or exactly the number of fields.
\<close>

theorem check_region_precision:
  assumes "fields_r r = [] \<or> mines_min r \<noteq> mines_max r
           \<or> (mines_min r \<noteq> 0 \<and> mines_min r \<noteq> int (length (fields_r r)))"
  shows "check_region orc st r = Inr (False, st)"
  using assms by (auto simp: check_region_def)

theorem check_region_precision_witness:
  "mines_min R1 \<noteq> 0 \<and> mines_min R1 \<noteq> int (length (fields_r R1))
   \<and> check_region orc1 board1 R1 = Inr (False, board1)"
  using check_region_precision [of R1 orc1 board1] by (simp add: R1_def)

lemma FieldType_of_int_Some:
  "FieldType_of_int n = Some t \<longleftrightarrow> 0 \<le> n \<and> n \<le> 10 \<and> int_of_FieldType t = n"
  by (cases t) (auto simp: FieldType_of_int_def)

lemma FieldType_of_int_numbered:
  "0 \<le> n \<Longrightarrow> n \<le> 8 \<Longrightarrow> \<exists>t. FieldType_of_int n = Some t \<and> numbered t \<and> int_of_FieldType t = n"
  by (auto simp: FieldType_of_int_def numbered_def)

lemma answers_count_revealed:
  assumes "answers_count orc fs" "f \<in> set fs"
  shows "\<exists>t. revealed orc f = Some t \<and> numbered t \<and> orc f = Count (int_of_FieldType t)"
proof -
  from assms have "case orc f of Count n \<Rightarrow> 0 \<le> n \<and> n \<le> 8 | Boom \<Rightarrow> False"
    by (simp add: answers_count_def)
  then obtain n where n: "orc f = Count n" "0 \<le> n" "n \<le> 8"
    by (cases "orc f") auto
  from FieldType_of_int_numbered[OF n(2,3)] n(1) show ?thesis
    by (auto simp: revealed_def)
qed

text \<open>
  C8. With \<open>mines_min = mines_max = 0\<close> over a non-empty set of fields that the oracle
  answers with counts, \<^verbatim>\<open>check_region\<close> returns \<open>True\<close>, every field of the region gets
  the numbered type of the oracle's count, no other cell changes, and \<open>mines_left\<close> stays.
  With \<open>mines_min = mines_max = len(fields)\<close> over a non-empty set of fields it returns
  \<open>True\<close>, every field of the region is \<open>Mine\<close>, no other cell changes, and \<open>mines_left\<close>
  has gone down by exactly \<open>len(fields)\<close>.
\<close>

theorem check_region_effect:
  "(mines_min r = 0 \<and> mines_max r = 0 \<and> fields_r r \<noteq> [] \<and> answers_count orc (fields_r r)
     \<longrightarrow> (\<exists>st'. check_region orc st r = Inr (True, st') \<and>
           mines_left st' = mines_left st \<and>
           (\<forall>f \<in> set (fields_r r). numbered (playarea st' f) \<and>
                                     orc f = Count (int_of_FieldType (playarea st' f))) \<and>
           (\<forall>c. c \<notin> set (fields_r r) \<longrightarrow> playarea st' c = playarea st c)))
   \<and> (mines_min r = int (length (fields_r r)) \<and> mines_max r = int (length (fields_r r))
       \<and> fields_r r \<noteq> []
     \<longrightarrow> (\<exists>st'. check_region orc st r = Inr (True, st') \<and>
           mines_left st' = mines_left st - int (length (fields_r r)) \<and>
           (\<forall>f \<in> set (fields_r r). playarea st' f = Mine) \<and>
           (\<forall>c. c \<notin> set (fields_r r) \<longrightarrow> playarea st' c = playarea st c)))"
proof (intro conjI impI)
  assume a: "mines_min r = 0 \<and> mines_max r = 0 \<and> fields_r r \<noteq> [] \<and> answers_count orc (fields_r r)"
  then have ok: "\<forall>f \<in> set (fields_r r). revealed orc f \<noteq> None"
    by (auto dest: answers_count_revealed)
  define st' where
    "st' = st\<lparr>playarea := (\<lambda>c. if c \<in> set (fields_r r) then the (revealed orc c) else playarea st c)\<rparr>"
  from a ok have run: "check_region orc st r = Inr (True, st')"
    by (simp add: check_region_def sweep_fields_ok st'_def)
  have "numbered (playarea st' f) \<and> orc f = Count (int_of_FieldType (playarea st' f))"
    if "f \<in> set (fields_r r)" for f
    using answers_count_revealed[of orc "fields_r r" f] a that by (auto simp: st'_def)
  with run show "\<exists>st'. check_region orc st r = Inr (True, st') \<and>
           mines_left st' = mines_left st \<and>
           (\<forall>f \<in> set (fields_r r). numbered (playarea st' f) \<and>
                                     orc f = Count (int_of_FieldType (playarea st' f))) \<and>
           (\<forall>c. c \<notin> set (fields_r r) \<longrightarrow> playarea st' c = playarea st c)"
    by (intro exI[of _ st']) (simp add: st'_def)
next
  assume a: "mines_min r = int (length (fields_r r)) \<and> mines_max r = int (length (fields_r r))
       \<and> fields_r r \<noteq> []"
  then have "check_region orc st r = Inr (True, mark_fields st (fields_r r))"
    by (simp add: check_region_def)
  then show "\<exists>st'. check_region orc st r = Inr (True, st') \<and>
           mines_left st' = mines_left st - int (length (fields_r r)) \<and>
           (\<forall>f \<in> set (fields_r r). playarea st' f = Mine) \<and>
           (\<forall>c. c \<notin> set (fields_r r) \<longrightarrow> playarea st' c = playarea st c)"
    by (simp add: mark_fields_eq)
qed

lemma orc1_values:
  "orc1 (0, 1) = Count 2" "orc1 (1, 0) = Count 2"
  by (simp_all add: board_eval)

theorem check_region_effect_witness:
  "check_region orc1 board1 Z3 =
     Inr (True, board1\<lparr>playarea := (playarea board1)((0, 1) := Numbered2, (1, 0) := Numbered2)\<rparr>)
   \<and> check_region orc1 board1 F2 =
     Inr (True, board1\<lparr>playarea := (playarea board1)((1, 1) := Mine, (2, 1) := Mine),
                        mines_left := 2\<rparr>)"
proof -
  have h1: "mines_min Z3 = 0 \<and> mines_max Z3 = 0 \<and> fields_r Z3 \<noteq> [] \<and> answers_count orc1 (fields_r Z3)"
    by (simp add: Z3_def answers_count_def orc1_values)
  have h2: "mines_min F2 = int (length (fields_r F2)) \<and> mines_max F2 = int (length (fields_r F2))
       \<and> fields_r F2 \<noteq> []"
    by (simp add: F2_def)
  from check_region_effect [of Z3 orc1 board1] check_region_effect [of F2 orc1 board1] h1 h2
  obtain s1 s2 where "check_region orc1 board1 Z3 = Inr (True, s1)" "check_region orc1 board1 F2 = Inr (True, s2)"
    by blast
  then show ?thesis
    by (simp add: Z3_def F2_def check_region_def orc1_values sweep_field_def FieldType_of_int_def board1_def)
qed

section \<open>split\_regions\<close>

text \<open>
  C6 (depth bound). The bound is 4, and a call at or beyond the bound returns \<open>False\<close>
  at once, with the list and the state as they were, for every oracle: no pair is
  looked at. Recursive calls are made at \<open>depth + 1\<close> from calls below the bound only, so
  no call below a call at the bound exists.
\<close>

theorem split_regions_depth_bound:
  "MAX_RECURSION_DEPTH = 4 \<and>
   (MAX_RECURSION_DEPTH \<le> depth \<longrightarrow> split_regions orc regions depth st = Inr (False, regions, st))"
  by (simp add: MAX_RECURSION_DEPTH_def split_regions.simps)

theorem split_regions_depth_bound_witness:
  "MAX_RECURSION_DEPTH \<le> 4 \<and> split_regions orc1 [R1, R2, R4] 4 board1 = Inr (False, [R1, R2, R4], board1)"
  using split_regions_depth_bound [of 4 orc1 "[R1, R2, R4]" board1]
  by (simp add: MAX_RECURSION_DEPTH_def)

lemma check_region_False_frame:
  "check_region orc st r = Inr (False, st') \<Longrightarrow> st' = st"
  by (auto simp: check_region_def split: if_splits sum.splits)

lemma check_CDE_Inr:
  assumes "check_CDE orc st a b = Inr (m, st')"
  shows "\<exists>mC stC mD stD mE.
           check_region orc st (regionC a b) = Inr (mC, stC) \<and>
           check_region orc stC (regionD a b) = Inr (mD, stD) \<and>
           check_region orc stD (regionE a b) = Inr (mE, st') \<and>
           m = (mC \<or> mD \<or> mE)"
proof (cases "check_region orc st (regionC a b)")
  case (Inl e)
  with assms show ?thesis by (simp add: check_CDE_def)
next
  case c: (Inr rc)
  show ?thesis
  proof (cases "check_region orc (snd rc) (regionD a b)")
    case (Inl e)
    with assms c show ?thesis by (simp add: check_CDE_def split: prod.splits)
  next
    case d: (Inr rd)
    show ?thesis
    proof (cases "check_region orc (snd rd) (regionE a b)")
      case (Inl e)
      with assms c d show ?thesis by (simp add: check_CDE_def split: prod.splits)
    next
      case e: (Inr re)
      from assms c d e have "m = (fst rc \<or> fst rd \<or> fst re)" "st' = snd re"
        by (simp_all add: check_CDE_def split: prod.splits)
      with c d e show ?thesis
        by (metis prod.collapse)
    qed
  qed
qed

lemma check_CDE_False_frame:
  assumes "check_CDE orc st a b = Inr (False, st')"
  shows "st' = st"
proof -
  from check_CDE_Inr[OF assms] obtain stC stD where
    c: "check_region orc st (regionC a b) = Inr (False, stC)" and
    d: "check_region orc stC (regionD a b) = Inr (False, stD)" and
    e: "check_region orc stD (regionE a b) = Inr (False, st')"
    by auto
  from c have "stC = st" by (rule check_region_False_frame)
  moreover from d have "stD = stC" by (rule check_region_False_frame)
  moreover from e have "st' = stD" by (rule check_region_False_frame)
  ultimately show ?thesis by simp
qed

lemma restore_list:
  "ia < length xs \<Longrightarrow> ib < length xs \<Longrightarrow>
   butlast (((xs @ [c])[ia := d, ib := e])[ib := xs ! ib, ia := xs ! ia]) = xs"
  by (rule nth_equalityI) (auto simp: nth_butlast nth_list_update nth_append)

lemma split_frame_all:
  "(\<forall>regions' st'. split_regions orc regions depth st = Inr (False, regions', st') \<longrightarrow> st' = st)"
  "(\<forall>regions' st'. split_loopA orc depth stopA ia regions st = Inr (False, regions', st') \<longrightarrow> st' = st)"
  "(\<forall>regions' st'. split_loopB orc depth ia stopB ib regions st = Inr (False, regions', st') \<longrightarrow> st' = st)"
proof (induction orc regions depth st and orc depth stopA ia regions st and orc depth ia stopB ib regions st
       rule: split_regions_split_loopA_split_loopB.induct)
  case (1 orc regions depth st)
  then show ?case
    by (subst split_regions.simps) (auto split: if_splits)
next
  case (2 orc depth stopA ia regions st)
  show ?case
  proof (intro allI impI)
    fix regions' st'
    assume r: "split_loopA orc depth stopA ia regions st = Inr (False, regions', st')"
    show "st' = st"
    proof (cases "stopA \<le> ia")
      case True
      with r show ?thesis by (simp add: split_loopA.simps)
    next
      case False
      from r False obtain m1 r1 s1 where
        b: "split_loopB orc depth ia (length regions) (ia + 1) regions st = Inr (m1, r1, s1)"
        by (subst (asm) split_loopA.simps) (auto split: sum.splits)
      from r False b have m1: "\<not> m1" and rest: "split_loopA orc depth stopA (ia + 1) r1 s1 = Inr (False, regions', st')"
        by (subst (asm) split_loopA.simps, auto split: if_splits)+
      from "2.IH"(1)[OF False] b m1 have "s1 = st" by auto
      moreover from "2.IH"(2)[OF False b refl refl m1] rest have "st' = s1" by auto
      ultimately show ?thesis by simp
    qed
  qed
next
  case (3 orc depth ia stopB ib regions st)
  show ?case
  proof (intro allI impI)
    fix regions' st'
    assume r: "split_loopB orc depth ia stopB ib regions st = Inr (False, regions', st')"
    show "st' = st"
    proof (cases "stopB \<le> ib")
      case True
      with r show ?thesis by (simp add: split_loopB.simps)
    next
      case nstop: False
      show ?thesis
      proof (cases "ia < length regions \<and> ib < length regions")
        case False
        with r nstop show ?thesis by (simp add: split_loopB.simps)
      next
        case inr: True
        then have inr': "\<not> \<not> (ia < length regions \<and> ib < length regions)" by simp
        define A where "A = regions ! ia"
        define B where "B = regions ! ib"
        show ?thesis
        proof (cases "length (regionC_fields A B) = 0")
          case True
          with r nstop inr have "split_loopB orc depth ia stopB (ib + 1) regions st = Inr (False, regions', st')"
            by (subst (asm) split_loopB.simps) (simp add: A_def B_def Let_def)
          with "3.IH"(1)[OF nstop inr' A_def B_def True] show ?thesis by auto
        next
          case cne: False
          show ?thesis
          proof (cases "length (regionD_fields A B) = 0 \<and> length (regionE_fields A B) = 0")
            case True
            with r nstop inr cne have "split_loopB orc depth ia stopB (ib + 1) regions st = Inr (False, regions', st')"
              by (subst (asm) split_loopB.simps) (simp add: A_def B_def Let_def)
            with "3.IH"(2)[OF nstop inr' A_def B_def cne True] show ?thesis by auto
          next
            case de: False
            from r nstop inr cne de obtain m1 s1 where
              c: "check_CDE orc st A B = Inr (m1, s1)"
              by (subst (asm) split_loopB.simps) (auto simp: A_def B_def Let_def split: sum.splits)
            from r nstop inr cne de c have m1: "\<not> m1"
              by (subst (asm) split_loopB.simps) (auto simp: A_def B_def Let_def split: if_splits)
            with c have s1: "s1 = st" by (auto dest: check_CDE_False_frame)
            from r nstop inr cne de c m1 obtain m2 r2 s2 where
              rec: "split_regions orc ((regions @ [regionC A B])[ia := regionD A B, ib := regionE A B]) (depth + 1) s1
                      = Inr (m2, r2, s2)"
              by (subst (asm) split_loopB.simps) (auto simp: A_def B_def Let_def split: sum.splits)
            from r nstop inr cne de c m1 rec have
              rng: "\<not> \<not> (ib < length r2 \<and> ia < length r2)" and m2: "\<not> m2"
              and rest: "split_loopB orc depth ia stopB (ib + 1) (butlast (r2[ib := B, ia := A])) s2
                          = Inr (False, regions', st')"
              by (subst (asm) split_loopB.simps, auto simp: A_def B_def Let_def split: if_splits)+
            from "3.IH"(3)[OF nstop inr' A_def B_def cne de c refl m1] rec m2 have "s2 = s1" by auto
            moreover from "3.IH"(4)[OF nstop inr' A_def B_def cne de c refl m1 rec refl refl rng refl m2] rest
            have "st' = s2" by auto
            ultimately show ?thesis using s1 by simp
          qed
        qed
      qed
    qed
  qed
qed


lemma split_restore_all:
  "(\<forall>m regions' st'. split_regions orc regions depth st = Inr (m, regions', st') \<longrightarrow> regions' = regions)"
  "(\<forall>m regions' st'. split_loopA orc depth stopA ia regions st = Inr (m, regions', st') \<longrightarrow> regions' = regions)"
  "(\<forall>m regions' st'. split_loopB orc depth ia stopB ib regions st = Inr (m, regions', st') \<longrightarrow> regions' = regions)"
proof (induction orc regions depth st and orc depth stopA ia regions st and orc depth ia stopB ib regions st
       rule: split_regions_split_loopA_split_loopB.induct)
  case (1 orc regions depth st)
  then show ?case
    by (subst split_regions.simps) (auto split: if_splits)
next
  case (2 orc depth stopA ia regions st)
  show ?case
  proof (intro allI impI)
    fix m regions' st'
    assume r: "split_loopA orc depth stopA ia regions st = Inr (m, regions', st')"
    show "regions' = regions"
    proof (cases "stopA \<le> ia")
      case True
      with r show ?thesis by (simp add: split_loopA.simps)
    next
      case False
      from r False obtain m1 r1 s1 where
        b: "split_loopB orc depth ia (length regions) (ia + 1) regions st = Inr (m1, r1, s1)"
        by (subst (asm) split_loopA.simps) (auto split: sum.splits)
      from "2.IH"(1)[OF False] b have r1: "r1 = regions" by auto
      show ?thesis
      proof (cases m1)
        case True
        with r False b have "regions' = r1"
          by (subst (asm) split_loopA.simps) auto
        with r1 show ?thesis by simp
      next
        case m1: False
        with r False b have rest: "split_loopA orc depth stopA (ia + 1) r1 s1 = Inr (m, regions', st')"
          by (subst (asm) split_loopA.simps) auto
        from "2.IH"(2)[OF False b refl refl m1] rest have "regions' = r1" by auto
        with r1 show ?thesis by simp
      qed
    qed
  qed
next
  case (3 orc depth ia stopB ib regions st)
  show ?case
  proof (intro allI impI)
    fix m regions' st'
    assume r: "split_loopB orc depth ia stopB ib regions st = Inr (m, regions', st')"
    show "regions' = regions"
    proof (cases "stopB \<le> ib")
      case True
      with r show ?thesis by (simp add: split_loopB.simps)
    next
      case nstop: False
      show ?thesis
      proof (cases "ia < length regions \<and> ib < length regions")
        case False
        with r nstop show ?thesis by (simp add: split_loopB.simps)
      next
        case inr: True
        then have inr': "\<not> \<not> (ia < length regions \<and> ib < length regions)" by simp
        define A where "A = regions ! ia"
        define B where "B = regions ! ib"
        show ?thesis
        proof (cases "length (regionC_fields A B) = 0")
          case True
          with r nstop inr have "split_loopB orc depth ia stopB (ib + 1) regions st = Inr (m, regions', st')"
            by (subst (asm) split_loopB.simps) (simp add: A_def B_def Let_def)
          with "3.IH"(1)[OF nstop inr' A_def B_def True] show ?thesis by auto
        next
          case cne: False
          show ?thesis
          proof (cases "length (regionD_fields A B) = 0 \<and> length (regionE_fields A B) = 0")
            case True
            with r nstop inr cne have "split_loopB orc depth ia stopB (ib + 1) regions st = Inr (m, regions', st')"
              by (subst (asm) split_loopB.simps) (simp add: A_def B_def Let_def)
            with "3.IH"(2)[OF nstop inr' A_def B_def cne True] show ?thesis by auto
          next
            case de: False
            from r nstop inr cne de obtain m1 s1 where
              c: "check_CDE orc st A B = Inr (m1, s1)"
              by (subst (asm) split_loopB.simps) (auto simp: A_def B_def Let_def split: sum.splits)
            show ?thesis
            proof (cases m1)
              case True
              with r nstop inr cne de c show ?thesis
                by (subst (asm) split_loopB.simps) (auto simp: A_def B_def Let_def)
            next
              case m1: False
              from r nstop inr cne de c m1 obtain m2 r2 s2 where
                rec: "split_regions orc ((regions @ [regionC A B])[ia := regionD A B, ib := regionE A B]) (depth + 1) s1
                        = Inr (m2, r2, s2)"
                by (subst (asm) split_loopB.simps) (auto simp: A_def B_def Let_def split: sum.splits)
              from "3.IH"(3)[OF nstop inr' A_def B_def cne de c refl m1] rec
              have r2: "r2 = (regions @ [regionC A B])[ia := regionD A B, ib := regionE A B]" by auto
              with inr have rng: "\<not> \<not> (ib < length r2 \<and> ia < length r2)" by simp
              from r2 inr have restored: "butlast (r2[ib := B, ia := A]) = regions"
                unfolding A_def B_def by (simp only: restore_list)
              show ?thesis
              proof (cases m2)
                case True
                with r nstop inr cne de c m1 rec rng have "regions' = butlast (r2[ib := B, ia := A])"
                  by (subst (asm) split_loopB.simps) (auto simp: A_def B_def Let_def)
                with restored show ?thesis by simp
              next
                case m2: False
                with r nstop inr cne de c m1 rec rng have
                  rest: "split_loopB orc depth ia stopB (ib + 1) (butlast (r2[ib := B, ia := A])) s2
                          = Inr (m, regions', st')"
                  by (subst (asm) split_loopB.simps) (auto simp: A_def B_def Let_def)
                from "3.IH"(4)[OF nstop inr' A_def B_def cne de c refl m1 rec refl refl rng refl m2] rest
                have "regions' = butlast (r2[ib := B, ia := A])" by auto
                with restored show ?thesis by simp
              qed
            qed
          qed
        qed
      qed
    qed
  qed
qed


text \<open>
  C7 (restoration). Whenever \<^verbatim>\<open>split_regions\<close> returns, with \<open>True\<close> or with \<open>False\<close>, the
  list \<^verbatim>\<open>regions\<close> is the list it was called with: same length, same elements at the
  same indices.
\<close>

theorem split_regions_restores:
  "split_regions orc regions depth st = Inr (m, regions', st') \<Longrightarrow> regions' = regions"
  using split_restore_all(1) by blast

theorem split_regions_restores_witness:
  "split_regions orc1 [R2, R4, R1] 0 board1 =
     Inr (True, [R2, R4, R1],
          board1\<lparr>playarea := (playarea board1)((2, 1) := Mine, (0, 1) := Numbered2),
                 mines_left := 3\<rparr>)"
proof -
  have run: "split_regions orc1 [R2, R4, R1] 0 board1 =
     Inr (True, [R2, R4, R1],
          board1\<lparr>playarea := (playarea board1)((2, 1) := Mine, (0, 1) := Numbered2),
                 mines_left := 3\<rparr>)"
    by (simp add: split_eval board_eval)
  from split_regions_restores [OF run] run show ?thesis by simp
qed

text \<open>
  C10. When \<^verbatim>\<open>split_regions\<close> returns \<open>False\<close>, the state is the state of the call: the
  type of every cell and \<open>mines_left\<close> are unchanged.
\<close>

theorem split_regions_False_frame:
  "split_regions orc regions depth st = Inr (False, regions', st') \<Longrightarrow> st' = st"
  using split_frame_all(1) by blast

theorem split_regions_False_frame_witness:
  "split_regions orc1 [R2, R4] 0 board1 = Inr (False, [R2, R4], board1)"
proof -
  have run: "split_regions orc1 [R2, R4] 0 board1 = Inr (False, [R2, R4], board1)"
    by (simp add: split_eval board_eval)
  from split_regions_False_frame [OF run] run show ?thesis by simp
qed

section \<open>The bounds of the derived regions\<close>

lemma mines_in_split:
  "mines_in M fs = mines_in M (filter P fs) + mines_in M (filter (\<lambda>f. \<not> P f) fs)"
  by (induction fs) (auto simp: mines_in_def)

lemma mines_in_bounds: "0 \<le> mines_in M fs \<and> mines_in M fs \<le> int (length fs)"
  by (simp add: mines_in_def)

lemma mines_in_card:
  "distinct fs \<Longrightarrow> mines_in M fs = int (card (set fs \<inter> M))"
proof -
  assume d: "distinct fs"
  then have "distinct (filter (\<lambda>f. f \<in> M) fs)" by simp
  then have "length (filter (\<lambda>f. f \<in> M) fs) = card (set (filter (\<lambda>f. f \<in> M) fs))"
    by (rule distinct_card[symmetric])
  moreover have "set (filter (\<lambda>f. f \<in> M) fs) = set fs \<inter> M" by auto
  ultimately show ?thesis by (simp add: mines_in_def)
qed

lemma mines_in_inter_commute:
  assumes "distinct xs" "distinct ys"
  shows "mines_in M (filter (\<lambda>f. f \<in> set ys) xs) = mines_in M (filter (\<lambda>f. f \<in> set xs) ys)"
proof -
  have "set (filter (\<lambda>f. f \<in> set ys) xs) = set (filter (\<lambda>f. f \<in> set xs) ys)" by auto
  with assms show ?thesis by (simp add: mines_in_card)
qed

lemma split_A:
  "mines_in M (fields_r A) = mines_in M (regionC_fields A B) + mines_in M (regionD_fields A B)"
  unfolding regionC_fields_def regionD_fields_def by (rule mines_in_split)

lemma split_B:
  assumes "distinct (fields_r A)" "distinct (fields_r B)"
  shows "mines_in M (fields_r B) = mines_in M (regionC_fields A B) + mines_in M (regionE_fields A B)"
proof -
  have "mines_in M (fields_r B) = mines_in M (filter (\<lambda>f. f \<in> set (fields_r A)) (fields_r B))
          + mines_in M (regionE_fields A B)"
    unfolding regionE_fields_def by (rule mines_in_split)
  with mines_in_inter_commute[OF assms, of M] show ?thesis
    by (simp add: regionC_fields_def)
qed

lemma derived_satisfied:
  assumes dA: "distinct (fields_r A)" and dB: "distinct (fields_r B)"
    and sA: "satisfies M A" and sB: "satisfies M B"
  shows "satisfies M (regionC A B)" "satisfies M (regionD A B)" "satisfies M (regionE A B)"
proof -
  let ?c = "mines_in M (regionC_fields A B)"
  let ?d = "mines_in M (regionD_fields A B)"
  let ?e = "mines_in M (regionE_fields A B)"
  have a: "mines_in M (fields_r A) = ?c + ?d" by (rule split_A)
  have b: "mines_in M (fields_r B) = ?c + ?e" by (rule split_B[OF dA dB])
  have bd: "0 \<le> ?d" "?d \<le> int (length (regionD_fields A B))"
    and be: "0 \<le> ?e" "?e \<le> int (length (regionE_fields A B))"
    and bc: "0 \<le> ?c"
    using mines_in_bounds by blast+
  from sA a have A1: "mines_min A \<le> ?c + ?d" and A2: "?c + ?d \<le> mines_max A"
    by (simp_all add: satisfies_def)
  from sB b have B1: "mines_min B \<le> ?c + ?e" and B2: "?c + ?e \<le> mines_max B"
    by (simp_all add: satisfies_def)
  have cmin: "regionC_mines_min A B \<le> ?c"
    using A1 B1 bd be bc by (simp add: regionC_mines_min_def)
  have cmax: "?c \<le> regionC_mines_max A B"
    using A2 B2 bd be by (simp add: regionC_mines_max_def)
  from cmin cmax show "satisfies M (regionC A B)"
    by (simp add: satisfies_def regionC_def)
  from cmin cmax A1 A2 bd show "satisfies M (regionD A B)"
    by (simp add: satisfies_def regionD_def)
  from cmin cmax B1 B2 be show "satisfies M (regionE A B)"
    by (simp add: satisfies_def regionE_def)
qed

text \<open>
  C2 (split soundness). Let \<open>A\<close> and \<open>B\<close> be regions over duplicate-free fields and \<open>M\<close>
  any mine layout that meets the bounds of \<open>A\<close> and the bounds of \<open>B\<close>. Then the number of
  mines of \<open>M\<close> in C = A \<inter> B, in D = A - B and in E = B - A lies within the bounds that
  lines 196--205 compute for C, D and E.
\<close>

theorem split_soundness:
  assumes "distinct (fields_r A)" and "distinct (fields_r B)"
    and "satisfies M A" and "satisfies M B"
  shows "satisfies M (regionC A B) \<and> satisfies M (regionD A B) \<and> satisfies M (regionE A B)"
  using derived_satisfied[OF assms] by simp

theorem split_soundness_witness:
  "satisfies mines1 (regionC R2 R4) \<and> satisfies mines1 (regionD R2 R4) \<and> satisfies mines1 (regionE R2 R4)"
proof -
  have "distinct (fields_r R2)" "distinct (fields_r R4)" "satisfies mines1 R2" "satisfies mines1 R4"
    by (simp_all add: R2_def R4_def satisfies_def mines_in_def mines1_def)
  then show ?thesis by (rule split_soundness)
qed

section \<open>The neighbourhood of a cell\<close>

lemma comprehension_product:
  "[(a, b). a \<leftarrow> xs, b \<leftarrow> ys, P a b] = filter (\<lambda>p. P (fst p) (snd p)) (List.product xs ys)"
proof (induction xs)
  case Nil
  show ?case by simp
next
  case (Cons x xs)
  have "concat (map (\<lambda>b. if P x b then [(x, b)] else []) ys)
        = filter (\<lambda>p. P (fst p) (snd p)) (map (Pair x) ys)"
    by (induction ys) auto
  with Cons show ?case by simp
qed

lemma neighbours_filter: "neighbours st c = filter (\<lambda>p. p \<noteq> c) (block st c)"
  unfolding neighbours_def block_def comprehension_product
  by (rule filter_cong) (auto simp: prod_eq_iff)

lemma find_adjacent_type_filter:
  "find_adjacent_type st x y t = filter (\<lambda>p. playarea st p = t) (neighbours st (x, y))"
  unfolding find_adjacent_type_def neighbours_def comprehension_product
  by (simp add: conj_commute cong: conj_cong)

lemma set_scan_order:
  "set (scan_order st) = {(x, y). 0 \<le> x \<and> x < width st \<and> 0 \<le> y \<and> y < height st}"
  by (auto simp: scan_order_def py_range_def)

lemma set_block:
  "set (block st c) \<subseteq> set (scan_order st)"
  by (auto simp: block_def set_scan_order py_range_def)

lemma neighbours_in_grid: "set (neighbours st c) \<subseteq> set (scan_order st)"
  using set_block[of st c] by (auto simp: neighbours_filter)

lemma distinct_neighbours: "distinct (neighbours st c)"
  by (simp add: neighbours_filter block_def py_range_def distinct_product)

lemma distinct_find_adjacent_type: "distinct (find_adjacent_type st x y t)"
  by (simp add: find_adjacent_type_filter distinct_neighbours)

lemma length_py_range_3: "length (py_range (max (x - 1) 0) (min (x + 2) w)) \<le> 3"
  by (simp add: py_range_def)

lemma length_block: "length (block st c) \<le> 9"
proof -
  have "length (block st c) =
        length (py_range (max (fst c - 1) 0) (min (fst c + 2) (width st))) *
        length (py_range (max (snd c - 1) 0) (min (snd c + 2) (height st)))"
    by (simp add: block_def)
  also have "\<dots> \<le> 3 * 3"
    by (intro mult_le_mono length_py_range_3)
  finally show ?thesis by simp
qed

lemma length_neighbours:
  assumes "c \<in> set (scan_order st)"
  shows "length (neighbours st c) \<le> 8"
proof -
  obtain x y where "c = (x, y)" by (cases c)
  with assms have "c \<in> set (block st c)"
    by (auto simp: block_def set_scan_order py_range_def)
  then have "length (neighbours st c) < length (block st c)"
    unfolding neighbours_filter by (intro length_filter_less[of c]) auto
  with length_block[of st c] show ?thesis by simp
qed

lemma mines_in_by_type:
  assumes "\<forall>c \<in> set nb. (ty c = Mine \<longrightarrow> c \<in> M) \<and> (numbered (ty c) \<longrightarrow> c \<notin> M)"
  shows "mines_in M nb = mines_in M (filter (\<lambda>c. ty c = Unknown) nb)
                         + int (length (filter (\<lambda>c. ty c = Mine) nb))"
  using assms by (induction nb) (auto simp: mines_in_def numbered_def)

lemma region_at_mines:
  assumes con: "consistent M st" and c: "(x, y) \<in> set (scan_order st)"
    and num: "numbered (playarea st (x, y))"
  shows "mines_min (region_at st x y) = mines_in M (fields_r (region_at st x y))"
proof -
  let ?nb = "neighbours st (x, y)"
  from con c num have cnt: "int_of_FieldType (playarea st (x, y)) = mines_in M ?nb"
    by (auto simp: consistent_def)
  have "\<forall>c \<in> set ?nb. (playarea st c = Mine \<longrightarrow> c \<in> M) \<and> (numbered (playarea st c) \<longrightarrow> c \<notin> M)"
    using con neighbours_in_grid[of st "(x, y)"] by (auto simp: consistent_def)
  from mines_in_by_type[of ?nb "playarea st" M, OF this] cnt
  show ?thesis by (simp add: region_at_def find_adjacent_type_filter)
qed

section \<open>Boards that are consistent with a mine layout\<close>

lemma neighbours_dims:
  "width st' = width st \<Longrightarrow> height st' = height st \<Longrightarrow> neighbours st' c = neighbours st c"
  by (simp add: neighbours_def)

lemma scan_order_dims:
  "width st' = width st \<Longrightarrow> height st' = height st \<Longrightarrow> scan_order st' = scan_order st"
  by (simp add: scan_order_def)

lemma honest_dims:
  "width st' = width st \<Longrightarrow> height st' = height st \<Longrightarrow> honest M st' orc = honest M st orc"
  by (simp add: honest_def neighbours_dims[of st' st] scan_order_dims[of st' st])

lemma mines_in_none: "mines_in M fs \<le> 0 \<Longrightarrow> f \<in> set fs \<Longrightarrow> f \<notin> M"
  by (induction fs) (auto simp: mines_in_def split: if_splits)

lemma mines_in_all: "int (length fs) \<le> mines_in M fs \<Longrightarrow> f \<in> set fs \<Longrightarrow> f \<in> M"
proof (induction fs)
  case Nil
  then show ?case by simp
next
  case (Cons a fs)
  have le: "length (filter (\<lambda>f. f \<in> M) fs) \<le> length fs" by simp
  have aM: "a \<in> M"
  proof (rule ccontr)
    assume "a \<notin> M"
    with Cons.prems(1) have "1 + int (length fs) \<le> int (length (filter (\<lambda>f. f \<in> M) fs))"
      by (simp add: mines_in_def)
    with le show False by linarith
  qed
  with Cons.prems(1) have "int (length fs) \<le> mines_in M fs"
    by (simp add: mines_in_def)
  with Cons.IH Cons.prems(2) aM show ?case by auto
qed

lemma honest_reveals:
  assumes h: "honest M st orc" and c: "c \<in> set (scan_order st)" and nm: "c \<notin> M"
  shows "\<exists>t. revealed orc c = Some t \<and> numbered t
             \<and> int_of_FieldType t = mines_in M (neighbours st c)"
proof -
  let ?n = "mines_in M (neighbours st c)"
  from h c nm have o: "orc c = Count ?n" by (simp add: honest_def)
  have "0 \<le> ?n" "?n \<le> 8"
    using mines_in_bounds[of M "neighbours st c"] length_neighbours[OF c] by auto
  from FieldType_of_int_numbered[OF this] o show ?thesis
    by (auto simp: revealed_def)
qed

lemma check_region_consistent:
  assumes con: "consistent M st" and hon: "honest M st orc" and sat: "satisfies M r"
    and grid: "set (fields_r r) \<subseteq> set (scan_order st)"
    and run: "check_region orc st r = Inr (m, st')"
  shows "consistent M st' \<and> width st' = width st \<and> height st' = height st"
proof -
  consider (noop) "st' = st"
    | (sweep) "mines_min r = 0" "mines_max r = 0" "sweep_fields orc st (fields_r r) = Inr st'"
    | (mark) "mines_min r = int (length (fields_r r))" "mines_max r = int (length (fields_r r))"
             "st' = mark_fields st (fields_r r)"
    using run by (auto simp: check_region_def split: if_splits sum.splits)
  then show ?thesis
  proof cases
    case noop
    with con show ?thesis by simp
  next
    case sweep
    from sweep(3) have ok: "\<forall>f \<in> set (fields_r r). revealed orc f \<noteq> None"
      by (rule sweep_fields_Inr_revealed)
    from sweep_fields_ok[OF ok, of st] sweep(3) have st':
      "st' = st\<lparr>playarea := (\<lambda>c. if c \<in> set (fields_r r) then the (revealed orc c) else playarea st c)\<rparr>"
      by simp
    then have dims: "width st' = width st" "height st' = height st" by simp_all
    from sat sweep(2) have "mines_in M (fields_r r) \<le> 0" by (simp add: satisfies_def)
    then have safe: "f \<notin> M" if "f \<in> set (fields_r r)" for f
      using that by (rule mines_in_none)
    have "consistent M st'"
      unfolding consistent_def
    proof (intro ballI)
      fix c assume "c \<in> set (scan_order st')"
      with dims have c: "c \<in> set (scan_order st)" by (simp add: scan_order_dims[of st' st])
      show "(playarea st' c = Mine \<longrightarrow> c \<in> M) \<and>
            (numbered (playarea st' c) \<longrightarrow>
               c \<notin> M \<and> int_of_FieldType (playarea st' c) = mines_in M (neighbours st' c))"
      proof (cases "c \<in> set (fields_r r)")
        case True
        from honest_reveals[OF hon c safe[OF True]] obtain t where
          t: "revealed orc c = Some t" "numbered t" "int_of_FieldType t = mines_in M (neighbours st c)"
          by blast
        with True st' have "playarea st' c = t" by simp
        with t safe[OF True] dims show ?thesis
          by (simp add: neighbours_dims[of st' st] numbered_def)
      next
        case False
        with st' have "playarea st' c = playarea st c" by simp
        with con c dims show ?thesis
          by (simp add: consistent_def neighbours_dims[of st' st])
      qed
    qed
    with dims show ?thesis by simp
  next
    case mark
    from mark(3) have st':
      "st' = st\<lparr>playarea := (\<lambda>c. if c \<in> set (fields_r r) then Mine else playarea st c),
                mines_left := mines_left st - int (length (fields_r r))\<rparr>"
      by (simp add: mark_fields_eq)
    then have dims: "width st' = width st" "height st' = height st" by simp_all
    from sat mark(1) have "int (length (fields_r r)) \<le> mines_in M (fields_r r)"
      by (simp add: satisfies_def)
    then have mine: "f \<in> M" if "f \<in> set (fields_r r)" for f
      using that by (rule mines_in_all)
    have "consistent M st'"
      unfolding consistent_def
    proof (intro ballI)
      fix c assume "c \<in> set (scan_order st')"
      with dims have c: "c \<in> set (scan_order st)" by (simp add: scan_order_dims[of st' st])
      show "(playarea st' c = Mine \<longrightarrow> c \<in> M) \<and>
            (numbered (playarea st' c) \<longrightarrow>
               c \<notin> M \<and> int_of_FieldType (playarea st' c) = mines_in M (neighbours st' c))"
      proof (cases "c \<in> set (fields_r r)")
        case True
        with st' have "playarea st' c = Mine" by simp
        with mine[OF True] show ?thesis by (simp add: numbered_def)
      next
        case False
        with st' have "playarea st' c = playarea st c" by simp
        with con c dims show ?thesis
          by (simp add: consistent_def neighbours_dims[of st' st])
      qed
    qed
    with dims show ?thesis by simp
  qed
qed

lemma find_regions_cell_eq:
  "find_regions_cell orc (pm, regs, st) (x, y) =
     (if numbered (playarea st (x, y)) \<and> find_adjacent_type st x y Unknown \<noteq> []
         \<and> (\<forall>other \<in> set regs. set (find_adjacent_type st x y Unknown) \<noteq> set (fields_r other))
      then (case check_region orc st (region_at st x y) of
              Inl e \<Rightarrow> Inl e
            | Inr (m, st') \<Rightarrow> Inr (pm \<or> m, regs @ [region_at st x y], st'))
      else Inr (pm, regs, st))"
  unfolding region_at_def find_regions_cell_def
  by (auto simp: numbered_def Let_def)

lemma region_at_good:
  assumes con: "consistent M st" and c: "(x, y) \<in> set (scan_order st)"
    and num: "numbered (playarea st (x, y))"
  shows "satisfies M (region_at st x y)" "mines_min (region_at st x y) = mines_max (region_at st x y)"
    "distinct (fields_r (region_at st x y))" "set (fields_r (region_at st x y)) \<subseteq> set (scan_order st)"
proof -
  have eq: "mines_min (region_at st x y) = mines_max (region_at st x y)"
    by (simp add: region_at_def)
  with region_at_mines[OF con c num] show "satisfies M (region_at st x y)"
    by (simp add: satisfies_def)
  show "mines_min (region_at st x y) = mines_max (region_at st x y)" by (rule eq)
  show "distinct (fields_r (region_at st x y))"
    by (simp add: region_at_def distinct_find_adjacent_type)
  show "set (fields_r (region_at st x y)) \<subseteq> set (scan_order st)"
    using neighbours_in_grid[of st "(x, y)"]
    by (auto simp: region_at_def find_adjacent_type_filter)
qed

lemma find_regions_cell_inv:
  assumes con: "consistent M st" and hon: "honest M st orc"
    and regs: "\<forall>r \<in> set regs. satisfies M r \<and> mines_min r = mines_max r \<and> distinct (fields_r r)"
    and c: "c \<in> set (scan_order st)"
    and run: "find_regions_cell orc (pm, regs, st) c = Inr (pm', regs', st')"
  shows "consistent M st' \<and> honest M st' orc
         \<and> (\<forall>r \<in> set regs'. satisfies M r \<and> mines_min r = mines_max r \<and> distinct (fields_r r))
         \<and> scan_order st' = scan_order st"
proof -
  obtain x y where xy: "c = (x, y)" by (cases c)
  let ?go = "numbered (playarea st (x, y)) \<and> find_adjacent_type st x y Unknown \<noteq> []
         \<and> (\<forall>other \<in> set regs. set (find_adjacent_type st x y Unknown) \<noteq> set (fields_r other))"
  show ?thesis
  proof (cases ?go)
    case False
    with run xy have "pm' = pm \<and> regs' = regs \<and> st' = st"
      by (simp add: find_regions_cell_eq)
    with con hon regs show ?thesis by simp
  next
    case True
    with run xy obtain m where
      cr: "check_region orc st (region_at st x y) = Inr (m, st')" and
      r': "regs' = regs @ [region_at st x y]"
      by (auto simp: find_regions_cell_eq split: sum.splits)
    from True c xy have good:
      "satisfies M (region_at st x y)" "mines_min (region_at st x y) = mines_max (region_at st x y)"
      "distinct (fields_r (region_at st x y))" "set (fields_r (region_at st x y)) \<subseteq> set (scan_order st)"
      using region_at_good[OF con, of x y] by simp_all
    from check_region_consistent[OF con hon good(1) good(4) cr]
    have con': "consistent M st'" and dims: "width st' = width st" "height st' = height st"
      by simp_all
    from hon dims have "honest M st' orc" by (simp add: honest_dims[of st' st])
    moreover from dims have "scan_order st' = scan_order st" by (rule scan_order_dims)
    moreover from regs good r' have
      "\<forall>r \<in> set regs'. satisfies M r \<and> mines_min r = mines_max r \<and> distinct (fields_r r)"
      by auto
    ultimately show ?thesis using con' by simp
  qed
qed

lemma find_regions_loop_inv:
  assumes "consistent M st" and "honest M st orc"
    and "\<forall>r \<in> set regs. satisfies M r \<and> mines_min r = mines_max r \<and> distinct (fields_r r)"
    and "set cs \<subseteq> set (scan_order st)"
    and "find_regions_loop orc (pm, regs, st) cs = Inr (pm', regs', st')"
  shows "consistent M st' \<and> honest M st' orc
         \<and> (\<forall>r \<in> set regs'. satisfies M r \<and> mines_min r = mines_max r \<and> distinct (fields_r r))"
  using assms
proof (induction cs arbitrary: pm regs st)
  case Nil
  then show ?case by simp
next
  case (Cons c cs)
  from Cons.prems(5) obtain pm1 regs1 st1 where
    step: "find_regions_cell orc (pm, regs, st) c = Inr (pm1, regs1, st1)" and
    rest: "find_regions_loop orc (pm1, regs1, st1) cs = Inr (pm', regs', st')"
    by (auto split: sum.splits)
  from Cons.prems(4) have c: "c \<in> set (scan_order st)" by simp
  from find_regions_cell_inv[OF Cons.prems(1,2,3) c step]
  have inv1: "consistent M st1" "honest M st1 orc"
    "\<forall>r \<in> set regs1. satisfies M r \<and> mines_min r = mines_max r \<and> distinct (fields_r r)"
    "scan_order st1 = scan_order st"
    by simp_all
  from Cons.prems(4) inv1(4) have "set cs \<subseteq> set (scan_order st1)" by simp
  from Cons.IH[OF inv1(1,2,3) this rest] show ?case .
qed

lemma find_regions_good:
  assumes "consistent M st" and "honest M st orc"
    and "find_regions orc st = Inr (m, regions, st')"
  shows "consistent M st'" "honest M st' orc"
    "\<forall>r \<in> set regions. satisfies M r \<and> mines_min r = mines_max r \<and> distinct (fields_r r)"
  using find_regions_loop_inv[of M st orc "[]" "scan_order st" False m regions st'] assms
  by (simp_all add: find_regions_def)

lemma satisfied_bounds:
  assumes "satisfies M r"
  shows "0 \<le> mines_max r" "mines_min r \<le> mines_max r" "mines_min r \<le> int (length (fields_r r))"
  using assms mines_in_bounds[of M "fields_r r"] by (auto simp: satisfies_def)

lemma derived_nonneg:
  "0 \<le> mines_min (regionC A B)" "0 \<le> mines_min (regionD A B)" "0 \<le> mines_min (regionE A B)"
  by (simp_all add: regionC_def regionD_def regionE_def regionC_mines_min_def)


text \<open>
  C1 (bound invariant), as the code has it. A region that \<^verbatim>\<open>find_regions\<close> returns on a
  board consistent with a mine layout, swept by the oracle of that layout, satisfies
  \<open>0 \<le> mines_min = mines_max \<le> len(fields)\<close>. The regions C, D and E derived from two
  regions that one mine layout satisfies have \<open>0 \<le> mines_min \<le> mines_max\<close> and
  \<open>mines_min \<le> len(fields)\<close>. Their \<open>mines_max\<close> is not bounded by the number of their
  fields: the maximum of C is \<open>min(A.mines_max, B.mines_max)\<close> however few fields C has.
\<close>

theorem bound_invariant_amended:
  "(consistent M st \<and> honest M st orc \<and> find_regions orc st = Inr (m, regions, st') \<longrightarrow>
      (\<forall>r \<in> set regions. 0 \<le> mines_min r \<and> mines_min r = mines_max r
                          \<and> mines_max r \<le> int (length (fields_r r))))
   \<and> (distinct (fields_r A) \<and> distinct (fields_r B) \<and> satisfies M A \<and> satisfies M B \<longrightarrow>
      (\<forall>r \<in> {regionC A B, regionD A B, regionE A B}.
          0 \<le> mines_min r \<and> mines_min r \<le> mines_max r \<and> mines_min r \<le> int (length (fields_r r))))"
proof (intro conjI impI ballI)
  fix r
  assume a: "consistent M st \<and> honest M st orc \<and> find_regions orc st = Inr (m, regions, st')"
    and r: "r \<in> set regions"
  from a r find_regions_good(3)[of M st orc m regions st']
  have s: "satisfies M r" and e: "mines_min r = mines_max r" by auto
  from s e mines_in_bounds[of M "fields_r r"]
  show "0 \<le> mines_min r" "mines_min r = mines_max r" "mines_max r \<le> int (length (fields_r r))"
    by (auto simp: satisfies_def)
next
  fix r
  assume a: "distinct (fields_r A) \<and> distinct (fields_r B) \<and> satisfies M A \<and> satisfies M B"
    and r: "r \<in> {regionC A B, regionD A B, regionE A B}"
  from a have "satisfies M (regionC A B)" "satisfies M (regionD A B)" "satisfies M (regionE A B)"
    by (auto intro: derived_satisfied)
  with r have s: "satisfies M r" by auto
  from r derived_nonneg[of A B] show "0 \<le> mines_min r" by auto
  from satisfied_bounds[OF s] show "mines_min r \<le> mines_max r" "mines_min r \<le> int (length (fields_r r))"
    by simp_all
qed

text \<open>
  C1 as it is worded fails for a derived region. On the board of five columns the two
  regions of \<^verbatim>\<open>find_regions\<close> share two fields, and
  the region C that \<^verbatim>\<open>split_regions\<close> derives and keeps has \<open>mines_max = 3\<close> over these
  two fields.
\<close>

theorem bound_invariant_counterexample:
  "consistent mines5 board5 \<and> honest mines5 board5 orc5
   \<and> find_regions orc5 board5 = Inr (False, [A5, B5], board5)
   \<and> check_CDE orc5 board5 A5 B5 = Inr (False, board5)
   \<and> regionC A5 B5 = \<lparr>mines_min = 0, mines_max = 3, fields_r = [(2, 0), (2, 1)]\<rparr>
   \<and> \<not> mines_max (regionC A5 B5) \<le> int (length (fields_r (regionC A5 B5)))"
proof -
  have 1: "consistent mines5 board5"
    by (simp add: consistent_def numbered_def board5_def mines5_def mines_in_def neighbours_def
        scan_order_def py_range_def upto.simps)
  have 2: "honest mines5 board5 orc5"
    by (simp add: honest_def orc5_def board5_def mines5_def mines_in_def neighbours_def
        scan_order_def py_range_def upto.simps)
  have 3: "find_regions orc5 board5 = Inr (False, [A5, B5], board5)"
    by (simp add: find_eval board5_def A5_def B5_def scan_order_def py_range_def upto.simps
        check_region_def Let_def)
  have 5: "regionC A5 B5 = \<lparr>mines_min = 0, mines_max = 3, fields_r = [(2, 0), (2, 1)]\<rparr>"
    by (simp add: regionC_def regionC_fields_def regionD_fields_def regionE_fields_def
        regionC_mines_min_def regionC_mines_max_def A5_def B5_def)
  have 4: "check_CDE orc5 board5 A5 B5 = Inr (False, board5)"
    by (simp add: check_CDE_def check_region_def regionC_def regionD_def regionE_def
        regionC_fields_def regionD_fields_def regionE_fields_def
        regionC_mines_min_def regionC_mines_max_def A5_def B5_def)
  from 1 2 3 4 5 show ?thesis by simp
qed

theorem bound_invariant_amended_witness:
  "consistent mines1 board1 \<and> honest mines1 board1 orc1
   \<and> find_regions orc1 board1 = Inr (False, [R1, R2, R4], board1)
   \<and> satisfies mines1 R2 \<and> satisfies mines1 R4
   \<and> 0 \<le> mines_min R4 \<and> mines_min R4 = mines_max R4 \<and> mines_max R4 \<le> int (length (fields_r R4))
   \<and> 0 \<le> mines_min (regionE R2 R4) \<and> mines_min (regionE R2 R4) \<le> mines_max (regionE R2 R4)
   \<and> mines_min (regionE R2 R4) \<le> int (length (fields_r (regionE R2 R4)))"
proof -
  have d: "distinct (fields_r R2)" "distinct (fields_r R4)"
    by (simp_all add: R2_def R4_def)
  have s: "satisfies mines1 R2" "satisfies mines1 R4"
    by (simp_all add: R2_def R4_def satisfies_def mines_in_def mines1_def)
  note T = bound_invariant_amended [of mines1 board1 orc1 False "[R1, R2, R4]" board1 R2 R4]
  from T board1_consistent board1_honest board1_regions
  have "0 \<le> mines_min R4 \<and> mines_min R4 = mines_max R4 \<and> mines_max R4 \<le> int (length (fields_r R4))"
    by simp
  moreover from T d s
  have "0 \<le> mines_min (regionE R2 R4) \<and> mines_min (regionE R2 R4) \<le> mines_max (regionE R2 R4)
        \<and> mines_min (regionE R2 R4) \<le> int (length (fields_r (regionE R2 R4)))"
    by simp
  ultimately show ?thesis
    using board1_consistent board1_honest board1_regions s by simp
qed

section \<open>What find\_regions extracts\<close>

lemmas grid_eval = scan_order_def py_range_def upto.simps


lemma find_regions_cell_eq':
  "find_regions_cell orc (pm, regs, st) c =
     (if extractable st c
         \<and> (\<forall>other \<in> set regs. set (fields_r (region_at st (fst c) (snd c))) \<noteq> set (fields_r other))
      then (case check_region orc st (region_at st (fst c) (snd c)) of
              Inl e \<Rightarrow> Inl e
            | Inr (m, st') \<Rightarrow> Inr (pm \<or> m, regs @ [region_at st (fst c) (snd c)], st'))
      else Inr (pm, regs, st))"
proof -
  obtain x y where c: "c = (x, y)" by (cases c)
  have "fields_r (region_at st x y) = find_adjacent_type st x y Unknown"
    by (simp add: region_at_def)
  then show ?thesis
    unfolding c fst_conv snd_conv by (simp add: find_regions_cell_eq extractable_def)
qed

lemma find_regions_loop_False_frame:
  "find_regions_loop orc (pm, regs, st) cs = Inr (False, regs', st') \<Longrightarrow> st' = st \<and> \<not> pm"
proof (induction cs arbitrary: pm regs st)
  case Nil
  then show ?case by simp
next
  case (Cons c cs)
  from Cons.prems obtain pm1 regs1 st1 where
    step: "find_regions_cell orc (pm, regs, st) c = Inr (pm1, regs1, st1)" and
    rest: "find_regions_loop orc (pm1, regs1, st1) cs = Inr (False, regs', st')"
    by (auto split: sum.splits)
  from Cons.IH[OF rest] have 1: "st' = st1" "\<not> pm1" by simp_all
  from step 1(2) have "st1 = st \<and> \<not> pm"
    by (auto simp: find_regions_cell_eq' split: if_splits sum.splits dest: check_region_False_frame)
  with 1 show ?case by simp
qed

lemma find_regions_loop_no_mutation:
  assumes "find_regions_loop orc (pm, regs, st) cs = Inr (False, regs', st')"
  shows "(\<forall>r \<in> set regs'. r \<in> set regs \<or>
            (\<exists>c \<in> set cs. extractable st c \<and> r = region_at st (fst c) (snd c)))
       \<and> (\<forall>c \<in> set cs. extractable st c \<longrightarrow>
            (\<exists>r \<in> set regs'. set (fields_r r) = set (fields_r (region_at st (fst c) (snd c)))))
       \<and> set regs \<subseteq> set regs'
       \<and> (distinct (map (\<lambda>r. set (fields_r r)) regs) \<longrightarrow> distinct (map (\<lambda>r. set (fields_r r)) regs'))"
  using assms
proof (induction cs arbitrary: pm regs)
  case Nil
  then show ?case by simp
next
  case (Cons c cs)
  from Cons.prems obtain pm1 regs1 st1 where
    step: "find_regions_cell orc (pm, regs, st) c = Inr (pm1, regs1, st1)" and
    rest: "find_regions_loop orc (pm1, regs1, st1) cs = Inr (False, regs', st')"
    by (auto split: sum.splits)
  from find_regions_loop_False_frame[OF rest] have pm1: "\<not> pm1" by simp
  from step pm1 have st1: "st1 = st"
    by (auto simp: find_regions_cell_eq' split: if_splits sum.splits dest: check_region_False_frame)
  let ?r = "region_at st (fst c) (snd c)"
  let ?new = "extractable st c \<and> (\<forall>other \<in> set regs. set (fields_r ?r) \<noteq> set (fields_r other))"
  from step have regs1: "regs1 = (if ?new then regs @ [?r] else regs)"
    by (auto simp: find_regions_cell_eq' split: if_splits sum.splits)
  note IH = Cons.IH[OF rest[unfolded st1]]
  from IH have sub: "set regs1 \<subseteq> set regs'" by simp
  have a: "\<forall>r \<in> set regs'. r \<in> set regs \<or>
            (\<exists>c' \<in> set (c # cs). extractable st c' \<and> r = region_at st (fst c') (snd c'))"
  proof
    fix r assume "r \<in> set regs'"
    with IH have "r \<in> set regs1 \<or> (\<exists>c' \<in> set cs. extractable st c' \<and> r = region_at st (fst c') (snd c'))"
      by blast
    then show "r \<in> set regs \<or>
            (\<exists>c' \<in> set (c # cs). extractable st c' \<and> r = region_at st (fst c') (snd c'))"
      by (auto simp: regs1 split: if_splits)
  qed
  have b: "\<forall>c' \<in> set (c # cs). extractable st c' \<longrightarrow>
            (\<exists>r \<in> set regs'. set (fields_r r) = set (fields_r (region_at st (fst c') (snd c'))))"
  proof (intro ballI impI)
    fix c' assume c': "c' \<in> set (c # cs)" and e: "extractable st c'"
    show "\<exists>r \<in> set regs'. set (fields_r r) = set (fields_r (region_at st (fst c') (snd c')))"
    proof (cases "c' = c")
      case True
      with e have "\<exists>r \<in> set regs1. set (fields_r r) = set (fields_r ?r)"
        by (auto simp: regs1)
      with sub True show ?thesis by blast
    next
      case False
      with c' have "c' \<in> set cs" by simp
      with IH e show ?thesis by blast
    qed
  qed
  have c: "set regs \<subseteq> set regs'" using sub by (auto simp: regs1 split: if_splits)
  have d: "distinct (map (\<lambda>r. set (fields_r r)) regs) \<longrightarrow> distinct (map (\<lambda>r. set (fields_r r)) regs')"
  proof
    assume "distinct (map (\<lambda>r. set (fields_r r)) regs)"
    then have "distinct (map (\<lambda>r. set (fields_r r)) regs1)"
      by (auto simp: regs1)
    with IH show "distinct (map (\<lambda>r. set (fields_r r)) regs')" by blast
  qed
  from a b c d show ?case by blast
qed


text \<open>
  C3, as the code has it. At a scanned cell \<^verbatim>\<open>find_regions\<close> appends a region exactly when
  the cell is numbered at that moment, with any count from 0 to 8, has an \<open>Unknown\<close>
  neighbour, and its set of \<open>Unknown\<close> neighbours differs from the fields of every region
  collected before; the region is \<open>region_at\<close>: \<open>mines_min = mines_max = count - |M|\<close>
  and \<open>fields = U\<close>, read from the board as it is when the cell is scanned. In every other
  case the cell is skipped. For a pass that reports no mutation this gives, on the
  unchanged board: every returned region is the region of an extractable cell, every
  extractable cell has its set \<open>U\<close> among the returned regions, and no two returned
  regions have the same fields.
\<close>

theorem find_regions_extracts:
  "find_regions_cell orc (pm, regs, st) c =
     (if extractable st c
         \<and> (\<forall>other \<in> set regs. set (fields_r (region_at st (fst c) (snd c))) \<noteq> set (fields_r other))
      then (case check_region orc st (region_at st (fst c) (snd c)) of
              Inl e \<Rightarrow> Inl e
            | Inr (m, st') \<Rightarrow> Inr (pm \<or> m, regs @ [region_at st (fst c) (snd c)], st'))
      else Inr (pm, regs, st))
   \<and> (find_regions orc st = Inr (False, regions, st') \<longrightarrow>
        st' = st
        \<and> (\<forall>r \<in> set regions. \<exists>c \<in> set (scan_order st).
              extractable st c \<and> r = region_at st (fst c) (snd c))
        \<and> (\<forall>c \<in> set (scan_order st). extractable st c \<longrightarrow>
              (\<exists>r \<in> set regions. set (fields_r r) = set (fields_r (region_at st (fst c) (snd c)))))
        \<and> distinct (map (\<lambda>r. set (fields_r r)) regions))"
proof (intro conjI impI)
  show "find_regions_cell orc (pm, regs, st) c =
     (if extractable st c
         \<and> (\<forall>other \<in> set regs. set (fields_r (region_at st (fst c) (snd c))) \<noteq> set (fields_r other))
      then (case check_region orc st (region_at st (fst c) (snd c)) of
              Inl e \<Rightarrow> Inl e
            | Inr (m, st') \<Rightarrow> Inr (pm \<or> m, regs @ [region_at st (fst c) (snd c)], st'))
      else Inr (pm, regs, st))"
    by (rule find_regions_cell_eq')
next
  assume "find_regions orc st = Inr (False, regions, st')"
  then have run: "find_regions_loop orc (False, [], st) (scan_order st) = Inr (False, regions, st')"
    by (simp add: find_regions_def)
  from find_regions_loop_False_frame[OF run] show "st' = st" by simp
  from find_regions_loop_no_mutation[OF run]
  show "\<forall>r \<in> set regions. \<exists>c \<in> set (scan_order st).
              extractable st c \<and> r = region_at st (fst c) (snd c)"
    and "\<forall>c \<in> set (scan_order st). extractable st c \<longrightarrow>
              (\<exists>r \<in> set regions. set (fields_r r) = set (fields_r (region_at st (fst c) (snd c))))"
    and "distinct (map (\<lambda>r. set (fields_r r)) regions)"
    by simp_all
qed

theorem find_regions_extracts_witness:
  "find_regions orc1 board1 = Inr (False, [R1, R2, R4], board1)
   \<and> extractable board1 (1, 2) \<and> region_at board1 1 2 = R4
   \<and> find_regions_cell orc1 (False, [R1, R2], board1) (1, 2) = Inr (False, [R1, R2, R4], board1)
   \<and> distinct (map (\<lambda>r. set (fields_r r)) [R1, R2, R4])"
proof -
  note T = find_regions_extracts [of orc1 False "[R1, R2]" board1 "(1, 2)" "[R1, R2, R4]" board1]
  have e: "extractable board1 (1, 2)"
    by (simp add: extractable_def numbered_def find_adjacent_type_def board1_def py_range_def upto.simps)
  have r: "region_at board1 1 2 = R4"
    by (simp add: region_at_def find_adjacent_type_def board1_def py_range_def upto.simps R4_def)
  have n: "\<forall>other \<in> set [R1, R2]. set (fields_r R4) \<noteq> set (fields_r other)"
    by (simp add: R1_def R2_def R4_def set_eq_subset)
  have c: "check_region orc1 board1 R4 = Inr (False, board1)"
    by (simp add: check_region_def R4_def)
  from T e r n c have step:
    "find_regions_cell orc1 (False, [R1, R2], board1) (1, 2) = Inr (False, [R1, R2, R4], board1)"
    by simp
  from T board1_regions have "distinct (map (\<lambda>r. set (fields_r r)) [R1, R2, R4])"
    by blast
  with board1_regions e r step show ?thesis by simp
qed

text \<open>
  C3 as it is worded fails twice: a cell that shows 0 gets a region, which is swept at
  once; and of two cells with the same unknown neighbours only the first gets one.
\<close>

theorem find_regions_counterexample:
  "playarea boardZ (0, 0) = Numbered0
   \<and> find_regions orcZ boardZ =
       Inr (True, [\<lparr>mines_min = 0, mines_max = 0, fields_r = [(1, 0)]\<rparr>],
            boardZ\<lparr>playarea := (playarea boardZ)((1, 0) := Numbered0)\<rparr>)
   \<and> extractable boardD (0, 1) \<and> extractable boardD (1, 1)
   \<and> find_regions orcZ boardD =
       Inr (False, [\<lparr>mines_min = 1, mines_max = 1, fields_r = [(0, 0), (1, 0)]\<rparr>], boardD)"
proof -
  have 1: "find_regions orcZ boardZ =
       Inr (True, [\<lparr>mines_min = 0, mines_max = 0, fields_r = [(1, 0)]\<rparr>],
            boardZ\<lparr>playarea := (playarea boardZ)((1, 0) := Numbered0)\<rparr>)"
    by (simp add: find_eval grid_eval boardZ_def orcZ_def check_region_def sweep_field_def
        FieldType_of_int_def Let_def)
  have 2: "extractable boardD (0, 1)" "extractable boardD (1, 1)"
    by (simp_all add: extractable_def numbered_def find_adjacent_type_def boardD_def py_range_def upto.simps)
  have 3: "find_regions orcZ boardD =
       Inr (False, [\<lparr>mines_min = 1, mines_max = 1, fields_r = [(0, 0), (1, 0)]\<rparr>], boardD)"
    by (simp add: find_eval grid_eval boardD_def check_region_def Let_def)
  from 1 2 3 show ?thesis by (simp add: boardZ_def)
qed

section \<open>The main loop\<close>

lemma find_remaining_filter:
  "find_remaining st = filter (\<lambda>c. playarea st c = Unknown) (scan_order st)"
proof -
  have aux: "concat (map (\<lambda>(x, y). if playarea st (x, y) = Unknown then [(x, y)] else []) cs)
        = filter (\<lambda>c. playarea st c = Unknown) cs" for cs
    by (induction cs) auto
  show ?thesis unfolding find_remaining_def by (rule aux)
qed

lemma find_regions_False_frame:
  "find_regions orc st = Inr (False, regions, st') \<Longrightarrow> st' = st"
  using find_regions_loop_False_frame[of orc False "[]" st "scan_order st" regions st']
  by (simp add: find_regions_def)

text \<open>
  C9. When \<^verbatim>\<open>find_regions\<close> and \<^verbatim>\<open>split_regions\<close> both report no mutation, \<open>mines_left\<close> is 0
  and the oracle answers every remaining \<open>Unknown\<close> cell with a count, the round sweeps
  every remaining cell (each gets the numbered type of its count, nothing else changes),
  no \<open>Unknown\<close> cell is left, and the loop is left by \<^verbatim>\<open>break\<close>: the solve ends.
\<close>

theorem solver_round_no_mines_left:
  assumes fr: "find_regions orc st = Inr (False, regions, st1)"
    and sp: "split_regions orc regions 0 st1 = Inr (False, regions', st2)"
    and ml: "mines_left st = 0"
    and ans: "answers_count orc (find_remaining st)"
  shows "\<exists>st'. (\<forall>guess. solver_round orc guess st = Inr (True, st'))
           \<and> solver_loop orc guesses k st = Some (Inr st')
           \<and> find_remaining st' = []
           \<and> (\<forall>c \<in> set (find_remaining st).
                 numbered (playarea st' c) \<and> orc c = Count (int_of_FieldType (playarea st' c)))
           \<and> (\<forall>c. c \<notin> set (find_remaining st) \<longrightarrow> playarea st' c = playarea st c)
           \<and> mines_left st' = 0"
proof -
  let ?rem = "find_remaining st"
  define st' where
    "st' = st\<lparr>playarea := (\<lambda>c. if c \<in> set ?rem then the (revealed orc c) else playarea st c)\<rparr>"
  from fr have st1: "st1 = st" by (rule find_regions_False_frame)
  from sp split_frame_all(1) have st2: "st2 = st1" by blast
  have ok: "\<forall>f \<in> set ?rem. revealed orc f \<noteq> None"
    using ans by (auto dest: answers_count_revealed)
  then have sw: "sweep_fields orc st ?rem = Inr st'"
    unfolding st'_def by (rule sweep_fields_ok)
  have round: "solver_round orc guess st = Inr (True, st')" for guess
    using fr sp ml sw by (simp add: solver_round_def st1 st2 Let_def)
  have loop: "solver_loop orc guesses k st = Some (Inr st')"
    by (subst solver_loop.simps) (simp add: round)
  have shown: "numbered (playarea st' c) \<and> orc c = Count (int_of_FieldType (playarea st' c))"
    if "c \<in> set ?rem" for c
    using answers_count_revealed[OF ans that] that by (auto simp: st'_def)
  have "scan_order st' = scan_order st" by (simp add: scan_order_def st'_def)
  moreover have "playarea st' c \<noteq> Unknown" if "c \<in> set (scan_order st)" for c
  proof (cases "c \<in> set ?rem")
    case True
    from shown[OF True] show ?thesis by (simp add: numbered_def)
  next
    case False
    with that show ?thesis by (simp add: find_remaining_filter st'_def)
  qed
  ultimately have none: "find_remaining st' = []"
    by (simp add: find_remaining_filter filter_empty_conv)
  from round loop none shown ml show ?thesis
    by (intro exI[of _ st']) (simp add: st'_def)
qed

theorem solver_round_no_mines_left_witness:
  "find_regions orcW boardW = Inr (False, [], boardW)
   \<and> split_regions orcW [] 0 boardW = Inr (False, [], boardW)
   \<and> find_remaining boardW = [(2, 0)]
   \<and> solver_round orcW 0 boardW
       = Inr (True, boardW\<lparr>playarea := (playarea boardW)((2, 0) := Numbered1)\<rparr>)
   \<and> solver_loop orcW (\<lambda>k. 0) 0 boardW
       = Some (Inr (boardW\<lparr>playarea := (playarea boardW)((2, 0) := Numbered1)\<rparr>))"
proof -
  have fr: "find_regions orcW boardW = Inr (False, [], boardW)"
    by (simp add: find_eval grid_eval boardW_def)
  have sp: "split_regions orcW [] 0 boardW = Inr (False, [], boardW)"
    by (simp add: split_regions.simps split_loopA.simps MAX_RECURSION_DEPTH_def)
  have rem: "find_remaining boardW = [(2, 0)]"
    by (simp add: find_remaining_def grid_eval boardW_def)
  have ml: "mines_left boardW = 0" by (simp add: boardW_def)
  have ans: "answers_count orcW (find_remaining boardW)"
    by (simp add: rem answers_count_def orcW_def)
  from solver_round_no_mines_left [OF fr sp ml ans, of "\<lambda>k. 0" 0]
  obtain st' where
    r: "\<forall>guess. solver_round orcW guess boardW = Inr (True, st')" and
    l: "solver_loop orcW (\<lambda>k. 0) 0 boardW = Some (Inr st')"
    by blast
  have "solver_round orcW 0 boardW
          = Inr (True, boardW\<lparr>playarea := (playarea boardW)((2, 0) := Numbered1)\<rparr>)"
    apply (simp add: solver_round_def fr sp rem ml)
    apply (simp add: orcW_def sweep_field_def FieldType_of_int_def)
    done
  with r have "st' = boardW\<lparr>playarea := (playarea boardW)((2, 0) := Numbered1)\<rparr>" by simp
  with fr sp rem r l show ?thesis by simp
qed

section \<open>Hitting a mine\<close>

lemma sweep_field_Explosion:
  "sweep_field orc st f = Inl Explosion \<longleftrightarrow> orc f = Boom"
  by (simp add: sweep_field_def split: oracle_reply.splits option.splits)

lemma sweep_fields_Explosion:
  "sweep_fields orc st fs = Inl Explosion \<Longrightarrow> \<exists>f \<in> set fs. orc f = Boom"
proof (induction fs arbitrary: st)
  case Nil
  then show ?case by simp
next
  case (Cons f fs)
  show ?case
  proof (cases "sweep_field orc st f")
    case (Inl e)
    with Cons.prems have "sweep_field orc st f = Inl Explosion" by simp
    then show ?thesis by (simp add: sweep_field_Explosion)
  next
    case (Inr st1)
    with Cons.prems have "sweep_fields orc st1 fs = Inl Explosion" by simp
    from Cons.IH[OF this] show ?thesis by auto
  qed
qed

lemma sweep_fields_Inl:
  "sweep_fields orc st fs = Inl e \<Longrightarrow> \<exists>f \<in> set fs. revealed orc f = None"
proof (induction fs arbitrary: st)
  case Nil
  then show ?case by simp
next
  case (Cons f fs)
  show ?case
  proof (cases "sweep_field orc st f")
    case (Inl e')
    then have "revealed orc f = None"
      by (simp add: sweep_field_revealed split: option.splits)
    then show ?thesis by simp
  next
    case (Inr st1)
    with Cons.prems have "sweep_fields orc st1 fs = Inl e" by simp
    from Cons.IH[OF this] show ?thesis by auto
  qed
qed

lemma check_region_Inl:
  assumes "check_region orc st r = Inl e"
  shows "mines_min r = 0 \<and> mines_max r = 0 \<and> sweep_fields orc st (fields_r r) = Inl e"
  using assms by (auto simp: check_region_def split: if_splits sum.splits)

lemma check_region_Explosion:
  "check_region orc st r = Inl Explosion \<Longrightarrow> \<exists>c. orc c = Boom"
  by (blast dest: check_region_Inl sweep_fields_Explosion)

lemma check_CDE_Explosion:
  assumes "check_CDE orc st a b = Inl Explosion"
  shows "\<exists>c. orc c = Boom"
proof -
  from assms have "(\<exists>s. check_region orc s (regionC a b) = Inl Explosion)
      \<or> (\<exists>s. check_region orc s (regionD a b) = Inl Explosion)
      \<or> (\<exists>s. check_region orc s (regionE a b) = Inl Explosion)"
    by (auto simp: check_CDE_def split: sum.splits)
  then show ?thesis by (blast dest: check_region_Explosion)
qed

lemma find_regions_loop_Explosion:
  "find_regions_loop orc acc cs = Inl Explosion \<Longrightarrow> \<exists>c. orc c = Boom"
proof (induction cs arbitrary: acc)
  case Nil
  then show ?case by simp
next
  case (Cons c cs)
  obtain pm regs st where acc: "acc = (pm, regs, st)" by (cases acc)
  show ?case
  proof (cases "find_regions_cell orc acc c")
    case (Inl e)
    with Cons.prems have "find_regions_cell orc (pm, regs, st) c = Inl Explosion"
      by (simp add: acc)
    then have "check_region orc st (region_at st (fst c) (snd c)) = Inl Explosion"
      by (auto simp: find_regions_cell_eq' split: if_splits sum.splits)
    then show ?thesis by (rule check_region_Explosion)
  next
    case (Inr acc1)
    with Cons.prems have "find_regions_loop orc acc1 cs = Inl Explosion" by simp
    then show ?thesis by (rule Cons.IH)
  qed
qed

lemma split_Explosion_all:
  "split_regions orc regions depth st = Inl Explosion \<longrightarrow> (\<exists>c. orc c = Boom)"
  "split_loopA orc depth stopA ia regions st = Inl Explosion \<longrightarrow> (\<exists>c. orc c = Boom)"
  "split_loopB orc depth ia stopB ib regions st = Inl Explosion \<longrightarrow> (\<exists>c. orc c = Boom)"
proof (induction orc regions depth st and orc depth stopA ia regions st and orc depth ia stopB ib regions st
       rule: split_regions_split_loopA_split_loopB.induct)
  case (1 orc regions depth st)
  then show ?case
    by (subst split_regions.simps) (auto split: if_splits)
next
  case (2 orc depth stopA ia regions st)
  show ?case
  proof
    assume r: "split_loopA orc depth stopA ia regions st = Inl Explosion"
    then have ns: "\<not> stopA \<le> ia" by (subst (asm) split_loopA.simps) (auto split: if_splits)
    show "\<exists>c. orc c = Boom"
    proof (cases "split_loopB orc depth ia (length regions) (ia + 1) regions st")
      case (Inl e)
      with r ns have "split_loopB orc depth ia (length regions) (ia + 1) regions st = Inl Explosion"
        by (subst (asm) split_loopA.simps) simp
      with "2.IH"(1)[OF ns] show ?thesis by simp
    next
      case (Inr res)
      obtain m1 r1 s1 where res: "res = (m1, r1, s1)" by (cases res)
      with r ns Inr have m1: "\<not> m1" and rest: "split_loopA orc depth stopA (ia + 1) r1 s1 = Inl Explosion"
        by (subst (asm) split_loopA.simps, auto split: if_splits)+
      from "2.IH"(2)[OF ns Inr[unfolded res] refl refl m1] rest show ?thesis by simp
    qed
  qed
next
  case (3 orc depth ia stopB ib regions st)
  show ?case
  proof
    assume r: "split_loopB orc depth ia stopB ib regions st = Inl Explosion"
    then have nstop: "\<not> stopB \<le> ib" and inr: "ia < length regions \<and> ib < length regions"
      by (subst (asm) split_loopB.simps, auto split: if_splits)+
    then have inr': "\<not> \<not> (ia < length regions \<and> ib < length regions)" by simp
    define A where "A = regions ! ia"
    define B where "B = regions ! ib"
    show "\<exists>c. orc c = Boom"
    proof (cases "length (regionC_fields A B) = 0")
      case True
      with r nstop inr have "split_loopB orc depth ia stopB (ib + 1) regions st = Inl Explosion"
        by (subst (asm) split_loopB.simps) (simp add: A_def B_def Let_def)
      with "3.IH"(1)[OF nstop inr' A_def B_def True] show ?thesis by simp
    next
      case cne: False
      show ?thesis
      proof (cases "length (regionD_fields A B) = 0 \<and> length (regionE_fields A B) = 0")
        case True
        with r nstop inr cne have "split_loopB orc depth ia stopB (ib + 1) regions st = Inl Explosion"
          by (subst (asm) split_loopB.simps) (simp add: A_def B_def Let_def)
        with "3.IH"(2)[OF nstop inr' A_def B_def cne True] show ?thesis by simp
      next
        case de: False
        show ?thesis
        proof (cases "check_CDE orc st A B")
          case (Inl e)
          with r nstop inr cne de have "check_CDE orc st A B = Inl Explosion"
            by (subst (asm) split_loopB.simps) (auto simp: A_def B_def Let_def split: if_splits)
          then show ?thesis by (rule check_CDE_Explosion)
        next
          case (Inr res)
          obtain m1 s1 where res: "res = (m1, s1)" by (cases res)
          note c = Inr[unfolded res]
          from r nstop inr cne de c have m1: "\<not> m1"
            by (subst (asm) split_loopB.simps) (auto simp: A_def B_def Let_def split: if_splits)
          let ?call = "split_regions orc ((regions @ [regionC A B])[ia := regionD A B, ib := regionE A B])
                         (depth + 1) s1"
          show ?thesis
          proof (cases ?call)
            case (Inl e)
            with r nstop inr cne de c m1 have "?call = Inl Explosion"
              by (subst (asm) split_loopB.simps) (auto simp: A_def B_def Let_def split: if_splits)
            with "3.IH"(3)[OF nstop inr' A_def B_def cne de c refl m1] show ?thesis by simp
          next
            case (Inr res2)
            obtain m2 r2 s2 where res2: "res2 = (m2, r2, s2)" by (cases res2)
            note rec = Inr[unfolded res2]
            from r nstop inr cne de c m1 rec have
              rng: "\<not> \<not> (ib < length r2 \<and> ia < length r2)" and m2: "\<not> m2"
              and rest: "split_loopB orc depth ia stopB (ib + 1) (butlast (r2[ib := B, ia := A])) s2
                          = Inl Explosion"
              by (subst (asm) split_loopB.simps, auto simp: A_def B_def Let_def split: if_splits)+
            from "3.IH"(4)[OF nstop inr' A_def B_def cne de c refl m1 rec refl refl rng refl m2] rest
            show ?thesis by simp
          qed
        qed
      qed
    qed
  qed
qed

lemma solver_round_Explosion:
  assumes a: "solver_round orc guess st = Inl Explosion"
  shows "\<exists>c. orc c = Boom"
proof (cases "find_regions orc st")
  case (Inl e)
  with a have "find_regions_loop orc (False, [], st) (scan_order st) = Inl Explosion"
    by (simp add: solver_round_def find_regions_def)
  then show ?thesis by (rule find_regions_loop_Explosion)
next
  case (Inr res)
  obtain pm regs s1 where res: "res = (pm, regs, s1)" by (cases res)
  note fr = Inr[unfolded res]
  from a fr have pm: "\<not> pm" by (auto simp: solver_round_def)
  show ?thesis
  proof (cases "split_regions orc regs 0 s1")
    case (Inl e)
    with a fr pm have "split_regions orc regs 0 s1 = Inl Explosion"
      by (simp add: solver_round_def)
    with split_Explosion_all(1) show ?thesis by blast
  next
    case (Inr res2)
    obtain pm2 regs2 s2 where res2: "res2 = (pm2, regs2, s2)" by (cases res2)
    note sp = Inr[unfolded res2]
    from a fr pm sp have pm2: "\<not> pm2" by (auto simp: solver_round_def)
    show ?thesis
    proof (cases "mines_left s2 = 0")
      case True
      with a fr pm sp pm2 have "sweep_fields orc s2 (find_remaining s2) = Inl Explosion"
        by (auto simp: solver_round_def Let_def split: sum.splits)
      from sweep_fields_Explosion[OF this] show ?thesis by blast
    next
      case False
      with a fr pm sp pm2
      have "sweep_field orc s2 (find_remaining s2 ! nat guess) = Inl Explosion"
        by (auto simp: solver_round_def Let_def split: sum.splits if_splits)
      then have "orc (find_remaining s2 ! nat guess) = Boom"
        by (simp add: sweep_field_Explosion)
      then show ?thesis by (rule exI)
    qed
  qed
qed

lemma sweep_fields_append:
  "sweep_fields orc st (xs @ ys) =
     (case sweep_fields orc st xs of Inl e \<Rightarrow> Inl e | Inr s \<Rightarrow> sweep_fields orc s ys)"
  by (induction xs arbitrary: st) (auto split: sum.splits)

lemma sweep_fields_raises:
  "sweep_fields orc st fs = Inl e \<longleftrightarrow>
     (\<exists>pre f rest s. fs = pre @ f # rest \<and> sweep_fields orc st pre = Inr s
                      \<and> sweep_field orc s f = Inl e)"
proof
  assume "sweep_fields orc st fs = Inl e"
  then show "\<exists>pre f rest s. fs = pre @ f # rest \<and> sweep_fields orc st pre = Inr s
                      \<and> sweep_field orc s f = Inl e"
  proof (induction fs arbitrary: st)
    case Nil
    then show ?case by simp
  next
    case (Cons f fs)
    show ?case
    proof (cases "sweep_field orc st f")
      case (Inl e')
      with Cons.prems have "sweep_field orc st f = Inl e" by simp
      then have "f # fs = [] @ f # fs \<and> sweep_fields orc st [] = Inr st \<and> sweep_field orc st f = Inl e"
        by simp
      then show ?thesis by blast
    next
      case (Inr s1)
      with Cons.prems have "sweep_fields orc s1 fs = Inl e" by simp
      from Cons.IH[OF this] obtain pre f' rest s where
        p: "fs = pre @ f' # rest" "sweep_fields orc s1 pre = Inr s" "sweep_field orc s f' = Inl e"
        by blast
      with Inr have "f # fs = (f # pre) @ f' # rest \<and> sweep_fields orc st (f # pre) = Inr s
                     \<and> sweep_field orc s f' = Inl e"
        by simp
      then show ?thesis by blast
    qed
  qed
next
  assume "\<exists>pre f rest s. fs = pre @ f # rest \<and> sweep_fields orc st pre = Inr s
                      \<and> sweep_field orc s f = Inl e"
  then show "sweep_fields orc st fs = Inl e"
    by (auto simp: sweep_fields_append)
qed

lemma check_region_raises:
  "check_region orc st r = Inl e \<longleftrightarrow>
     fields_r r \<noteq> [] \<and> mines_min r = 0 \<and> mines_max r = 0
     \<and> sweep_fields orc st (fields_r r) = Inl e"
  by (auto simp: check_region_def split: sum.splits)

lemma check_CDE_raises:
  "check_CDE orc st A B = Inl e \<longleftrightarrow>
     check_region orc st (regionC A B) = Inl e
     \<or> (\<exists>mC sC. check_region orc st (regionC A B) = Inr (mC, sC) \<and>
           (check_region orc sC (regionD A B) = Inl e
            \<or> (\<exists>mD sD. check_region orc sC (regionD A B) = Inr (mD, sD) \<and>
                  check_region orc sD (regionE A B) = Inl e)))"
proof (cases "check_region orc st (regionC A B)")
  case (Inl e')
  then show ?thesis by (simp add: check_CDE_def)
next
  case c: (Inr rc)
  obtain mC sC where rc: "rc = (mC, sC)" by (cases rc)
  show ?thesis
  proof (cases "check_region orc sC (regionD A B)")
    case (Inl e')
    with c rc show ?thesis by (simp add: check_CDE_def)
  next
    case d: (Inr rd)
    obtain mD sD where rd: "rd = (mD, sD)" by (cases rd)
    show ?thesis
    proof (cases "check_region orc sD (regionE A B)")
      case (Inl e')
      with c rc d rd show ?thesis by (simp add: check_CDE_def)
    next
      case (Inr re)
      with c rc d rd show ?thesis by (simp add: check_CDE_def split: prod.splits)
    qed
  qed
qed

lemma find_regions_loop_append:
  "find_regions_loop orc acc (xs @ ys) =
     (case find_regions_loop orc acc xs of Inl e \<Rightarrow> Inl e | Inr acc1 \<Rightarrow> find_regions_loop orc acc1 ys)"
  by (induction xs arbitrary: acc) (auto split: sum.splits)

lemma find_regions_loop_raises:
  "find_regions_loop orc acc cs = Inl e \<longleftrightarrow>
     (\<exists>pre c rest acc1. cs = pre @ c # rest \<and> find_regions_loop orc acc pre = Inr acc1
                        \<and> find_regions_cell orc acc1 c = Inl e)"
proof
  assume "find_regions_loop orc acc cs = Inl e"
  then show "\<exists>pre c rest acc1. cs = pre @ c # rest \<and> find_regions_loop orc acc pre = Inr acc1
                        \<and> find_regions_cell orc acc1 c = Inl e"
  proof (induction cs arbitrary: acc)
    case Nil
    then show ?case by simp
  next
    case (Cons c cs)
    show ?case
    proof (cases "find_regions_cell orc acc c")
      case (Inl e')
      with Cons.prems have "find_regions_cell orc acc c = Inl e" by simp
      then have "c # cs = [] @ c # cs \<and> find_regions_loop orc acc [] = Inr acc
                 \<and> find_regions_cell orc acc c = Inl e"
        by simp
      then show ?thesis by blast
    next
      case (Inr a1)
      with Cons.prems have "find_regions_loop orc a1 cs = Inl e" by simp
      from Cons.IH[OF this] obtain pre c' rest acc1 where
        p: "cs = pre @ c' # rest" "find_regions_loop orc a1 pre = Inr acc1"
           "find_regions_cell orc acc1 c' = Inl e"
        by blast
      with Inr have "c # cs = (c # pre) @ c' # rest \<and> find_regions_loop orc acc (c # pre) = Inr acc1
                     \<and> find_regions_cell orc acc1 c' = Inl e"
        by simp
      then show ?thesis by blast
    qed
  qed
next
  assume "\<exists>pre c rest acc1. cs = pre @ c # rest \<and> find_regions_loop orc acc pre = Inr acc1
                        \<and> find_regions_cell orc acc1 c = Inl e"
  then show "find_regions_loop orc acc cs = Inl e"
    by (auto simp: find_regions_loop_append)
qed

lemma find_regions_cell_raises:
  "find_regions_cell orc (pm, regs, s) c = Inl e \<longleftrightarrow>
     extractable s c
     \<and> (\<forall>other \<in> set regs. set (fields_r (region_at s (fst c) (snd c))) \<noteq> set (fields_r other))
     \<and> check_region orc s (region_at s (fst c) (snd c)) = Inl e"
  by (auto simp: find_regions_cell_eq' split: sum.splits)

lemma find_regions_raises:
  "find_regions orc st = Inl e \<longleftrightarrow>
     (\<exists>pre c rest pm regs s.
        scan_order st = pre @ c # rest
        \<and> find_regions_loop orc (False, [], st) pre = Inr (pm, regs, s)
        \<and> extractable s c
        \<and> (\<forall>other \<in> set regs. set (fields_r (region_at s (fst c) (snd c))) \<noteq> set (fields_r other))
        \<and> check_region orc s (region_at s (fst c) (snd c)) = Inl e)"
proof -
  have "find_regions orc st = Inl e \<longleftrightarrow>
     (\<exists>pre c rest acc1. scan_order st = pre @ c # rest
        \<and> find_regions_loop orc (False, [], st) pre = Inr acc1
        \<and> find_regions_cell orc acc1 c = Inl e)"
    unfolding find_regions_def by (rule find_regions_loop_raises)
  also have "\<dots> \<longleftrightarrow>
     (\<exists>pre c rest pm regs s.
        scan_order st = pre @ c # rest
        \<and> find_regions_loop orc (False, [], st) pre = Inr (pm, regs, s)
        \<and> find_regions_cell orc (pm, regs, s) c = Inl e)"
    by auto
  finally show ?thesis by (simp only: find_regions_cell_raises)
qed

lemma split_regions_raises:
  "split_regions orc regions depth st = Inl e \<longleftrightarrow>
     depth < MAX_RECURSION_DEPTH \<and> split_loopA orc depth (length regions) 0 regions st = Inl e"
  by (subst split_regions.simps) auto

lemma split_loopA_raises:
  assumes "ia < stopA"
  shows "split_loopA orc depth stopA ia regions st = Inl e \<longleftrightarrow>
     split_loopB orc depth ia (length regions) (ia + 1) regions st = Inl e
     \<or> (split_loopB orc depth ia (length regions) (ia + 1) regions st = Inr (False, regions, st)
        \<and> split_loopA orc depth stopA (ia + 1) regions st = Inl e)"
proof (cases "split_loopB orc depth ia (length regions) (ia + 1) regions st")
  case (Inl e')
  with assms show ?thesis by (subst split_loopA.simps) simp
next
  case (Inr res)
  obtain m1 r1 s1 where res: "res = (m1, r1, s1)" by (cases res)
  note b = Inr[unfolded res]
  from b split_restore_all(3) have r1: "r1 = regions" by blast
  show ?thesis
  proof (cases m1)
    case True
    with assms b show ?thesis by (subst split_loopA.simps) simp
  next
    case False
    with b split_frame_all(3)[of orc depth ia "length regions" "ia + 1" regions st]
    have "s1 = st" by simp
    with assms b r1 False show ?thesis by (subst split_loopA.simps) simp
  qed
qed

lemma split_loopB_raises:
  assumes "ib < stopB" and "ia < length regions" and "ib < length regions"
  shows "split_loopB orc depth ia stopB ib regions st = Inl e \<longleftrightarrow>
     (if length (regionC_fields (regions ! ia) (regions ! ib)) = 0
         \<or> (length (regionD_fields (regions ! ia) (regions ! ib)) = 0
            \<and> length (regionE_fields (regions ! ia) (regions ! ib)) = 0)
      then split_loopB orc depth ia stopB (ib + 1) regions st = Inl e
      else check_CDE orc st (regions ! ia) (regions ! ib) = Inl e
           \<or> (check_CDE orc st (regions ! ia) (regions ! ib) = Inr (False, st)
              \<and> (split_regions orc
                    ((regions @ [regionC (regions ! ia) (regions ! ib)])
                       [ia := regionD (regions ! ia) (regions ! ib),
                        ib := regionE (regions ! ia) (regions ! ib)])
                    (depth + 1) st = Inl e
                  \<or> (split_regions orc
                        ((regions @ [regionC (regions ! ia) (regions ! ib)])
                           [ia := regionD (regions ! ia) (regions ! ib),
                            ib := regionE (regions ! ia) (regions ! ib)])
                        (depth + 1) st
                       = Inr (False,
                              (regions @ [regionC (regions ! ia) (regions ! ib)])
                                [ia := regionD (regions ! ia) (regions ! ib),
                                 ib := regionE (regions ! ia) (regions ! ib)], st)
                     \<and> split_loopB orc depth ia stopB (ib + 1) regions st = Inl e))))"
proof -
  define A where "A = regions ! ia"
  define B where "B = regions ! ib"
  define L where "L = (regions @ [regionC A B])[ia := regionD A B, ib := regionE A B]"
  let ?skip = "length (regionC_fields A B) = 0
         \<or> (length (regionD_fields A B) = 0 \<and> length (regionE_fields A B) = 0)"
  have goal: "split_loopB orc depth ia stopB ib regions st = Inl e \<longleftrightarrow>
     (if ?skip then split_loopB orc depth ia stopB (ib + 1) regions st = Inl e
      else check_CDE orc st A B = Inl e
           \<or> (check_CDE orc st A B = Inr (False, st)
              \<and> (split_regions orc L (depth + 1) st = Inl e
                  \<or> (split_regions orc L (depth + 1) st = Inr (False, L, st)
                     \<and> split_loopB orc depth ia stopB (ib + 1) regions st = Inl e))))"
  proof (cases ?skip)
    case True
    with assms show ?thesis
      by (subst split_loopB.simps) (auto simp: A_def B_def Let_def)
  next
    case ns: False
    show ?thesis
    proof (cases "check_CDE orc st A B")
      case (Inl e')
      with assms ns show ?thesis
        by (subst split_loopB.simps) (auto simp: A_def B_def Let_def)
    next
      case (Inr res)
      obtain m1 s1 where res: "res = (m1, s1)" by (cases res)
      note c = Inr[unfolded res]
      show ?thesis
      proof (cases m1)
        case True
        with assms ns c show ?thesis
          by (subst split_loopB.simps) (auto simp: A_def B_def Let_def)
      next
        case m1: False
        with c have s1: "s1 = st" by (auto dest: check_CDE_False_frame)
        note c' = c[unfolded s1]
        show ?thesis
        proof (cases "split_regions orc L (depth + 1) st")
          case (Inl e')
          with assms ns c' m1 show ?thesis
            by (subst split_loopB.simps) (auto simp: A_def B_def L_def Let_def)
        next
          case (Inr res2)
          obtain m2 r2 s2 where res2: "res2 = (m2, r2, s2)" by (cases res2)
          note rec = Inr[unfolded res2]
          from rec split_restore_all(1) have r2: "r2 = L" by blast
          from assms have lenL: "ib < length L" "ia < length L" by (simp_all add: L_def)
          from assms have restored: "butlast (L[ib := B, ia := A]) = regions"
            unfolding L_def A_def B_def by (simp only: restore_list)
          show ?thesis
          proof (cases m2)
            case True
            with assms ns c' m1 rec r2 lenL show ?thesis
              by (subst split_loopB.simps) (auto simp: A_def B_def L_def Let_def)
          next
            case m2: False
            with rec split_frame_all(1)[of orc L "depth + 1" st] have s2: "s2 = st" by simp
            from assms ns c' m1 rec[unfolded r2 s2] m2 lenL restored
            have "split_loopB orc depth ia stopB ib regions st
                  = split_loopB orc depth ia stopB (ib + 1) regions st"
              by (subst split_loopB.simps) (auto simp: A_def B_def L_def Let_def)
            with ns c' m1 rec[unfolded r2 s2] m2 show ?thesis by simp
          qed
        qed
      qed
    qed
  qed
  then show ?thesis unfolding L_def A_def B_def .
qed

lemma solver_round_raises:
  "solver_round orc guess st = Inl e \<longleftrightarrow>
     find_regions orc st = Inl e
     \<or> (\<exists>regions. find_regions orc st = Inr (False, regions, st) \<and>
          (split_regions orc regions 0 st = Inl e
           \<or> (split_regions orc regions 0 st = Inr (False, regions, st) \<and>
               (if mines_left st = 0 then sweep_fields orc st (find_remaining st) = Inl e
                else find_remaining st \<noteq> [] \<and>
                     (if 0 \<le> guess \<and> guess < int (length (find_remaining st))
                      then sweep_field orc st (find_remaining st ! nat guess) = Inl e
                      else e = IndexError)))))"
proof (cases "find_regions orc st")
  case (Inl e')
  then show ?thesis by (simp add: solver_round_def)
next
  case (Inr res)
  obtain pm regs s1 where res: "res = (pm, regs, s1)" by (cases res)
  note fr = Inr[unfolded res]
  show ?thesis
  proof (cases pm)
    case True
    with fr show ?thesis by (simp add: solver_round_def)
  next
    case pm: False
    with fr have s1: "s1 = st" by (auto dest: find_regions_False_frame)
    note fr' = fr[unfolded s1]
    show ?thesis
    proof (cases "split_regions orc regs 0 st")
      case (Inl e')
      with fr' pm show ?thesis by (simp add: solver_round_def)
    next
      case (Inr res2)
      obtain pm2 regs2 s2 where res2: "res2 = (pm2, regs2, s2)" by (cases res2)
      note sp = Inr[unfolded res2]
      from sp split_restore_all(1) have regs2: "regs2 = regs" by blast
      show ?thesis
      proof (cases pm2)
        case True
        with fr' pm sp show ?thesis by (simp add: solver_round_def)
      next
        case pm2: False
        with sp split_frame_all(1)[of orc regs 0 st] have s2: "s2 = st" by simp
        note sp' = sp[unfolded regs2 s2]
        show ?thesis
        proof (cases "mines_left st = 0")
          case True
          with fr' pm sp' pm2 show ?thesis
            by (simp add: solver_round_def Let_def split: sum.splits)
        next
          case False
          with fr' pm sp' pm2 show ?thesis
            by (auto simp: solver_round_def Let_def split: sum.splits)
        qed
      qed
    qed
  qed
qed

lemma solver_loop_raises:
  "solver_round orc (guesses k) st = Inl e \<Longrightarrow> solver_loop orc guesses k st = Some (Inl e)"
  by (subst solver_loop.simps) simp

lemma solver_loop_continues:
  "solver_round orc (guesses k) st = Inr (False, st1) \<Longrightarrow>
   solver_loop orc guesses k st = solver_loop orc guesses (Suc k) st1"
  by (subst solver_loop.simps) simp

lemma find_regions_Explosion:
  "find_regions orc st = Inl Explosion \<Longrightarrow> \<exists>c. orc c = Boom"
  unfolding find_regions_def by (rule find_regions_loop_Explosion)


text \<open>
  C4, as the code has it. \<^verbatim>\<open>sweep_field\<close> returns no value: when the oracle reports a
  mine it ends by the exception (first line). That exception is handed up unchanged at
  every call, and nothing catches or tests it:
  \<^item> the loop over the fields raises exactly what the sweep of its first failing field
    raises;
  \<^item> \<^verbatim>\<open>check_region\<close> raises exactly what its sweeping loop raises, and only in the branch
    \<open>mines_min = mines_max = 0\<close>: marking never raises;
  \<^item> the three checks of a split raise exactly what the first failing \<^verbatim>\<open>check_region\<close>
    raises;
  \<^item> \<^verbatim>\<open>find_regions\<close> raises exactly what \<^verbatim>\<open>check_region\<close> raises at the first scanned cell
    where it fails;
  \<^item> \<^verbatim>\<open>split_regions\<close> and its two loops raise exactly what the checks of a pair, the
    recursive call or the rest of the loop raise;
  \<^item> a round of the main loop raises exactly what \<^verbatim>\<open>find_regions\<close>, \<^verbatim>\<open>split_regions\<close>, the
    final sweep or the sweep of the guess raise (or the IndexError of a guess out of
    range), and the loop ends with the exception of the first round that raises.
  Last line: the exception of a mine comes from the oracle alone.
\<close>

theorem mine_hit_is_exception:
  "(orc f = Boom \<longrightarrow> sweep_field orc st f = Inl Explosion)
   \<and> (sweep_fields orc st fs = Inl e \<longleftrightarrow>
        (\<exists>pre f rest s. fs = pre @ f # rest \<and> sweep_fields orc st pre = Inr s
                         \<and> sweep_field orc s f = Inl e))
   \<and> (check_region orc st r = Inl e \<longleftrightarrow>
        fields_r r \<noteq> [] \<and> mines_min r = 0 \<and> mines_max r = 0
        \<and> sweep_fields orc st (fields_r r) = Inl e)
   \<and> (check_CDE orc st A B = Inl e \<longleftrightarrow>
        check_region orc st (regionC A B) = Inl e
        \<or> (\<exists>mC sC. check_region orc st (regionC A B) = Inr (mC, sC) \<and>
              (check_region orc sC (regionD A B) = Inl e
               \<or> (\<exists>mD sD. check_region orc sC (regionD A B) = Inr (mD, sD) \<and>
                     check_region orc sD (regionE A B) = Inl e))))
   \<and> (find_regions orc st = Inl e \<longleftrightarrow>
        (\<exists>pre c rest pm regs s.
           scan_order st = pre @ c # rest
           \<and> find_regions_loop orc (False, [], st) pre = Inr (pm, regs, s)
           \<and> extractable s c
           \<and> (\<forall>other \<in> set regs.
                 set (fields_r (region_at s (fst c) (snd c))) \<noteq> set (fields_r other))
           \<and> check_region orc s (region_at s (fst c) (snd c)) = Inl e))
   \<and> (split_regions orc regions depth st = Inl e \<longleftrightarrow>
        depth < MAX_RECURSION_DEPTH
        \<and> split_loopA orc depth (length regions) 0 regions st = Inl e)
   \<and> (ia < stopA \<longrightarrow>
        (split_loopA orc depth stopA ia regions st = Inl e \<longleftrightarrow>
           split_loopB orc depth ia (length regions) (ia + 1) regions st = Inl e
           \<or> (split_loopB orc depth ia (length regions) (ia + 1) regions st
                 = Inr (False, regions, st)
              \<and> split_loopA orc depth stopA (ia + 1) regions st = Inl e)))
   \<and> (ib < stopB \<and> ia < length regions \<and> ib < length regions \<longrightarrow>
        (split_loopB orc depth ia stopB ib regions st = Inl e \<longleftrightarrow>
          (if length (regionC_fields (regions ! ia) (regions ! ib)) = 0
              \<or> (length (regionD_fields (regions ! ia) (regions ! ib)) = 0
                 \<and> length (regionE_fields (regions ! ia) (regions ! ib)) = 0)
           then split_loopB orc depth ia stopB (ib + 1) regions st = Inl e
           else check_CDE orc st (regions ! ia) (regions ! ib) = Inl e
                \<or> (check_CDE orc st (regions ! ia) (regions ! ib) = Inr (False, st)
                   \<and> (split_regions orc
                         ((regions @ [regionC (regions ! ia) (regions ! ib)])
                            [ia := regionD (regions ! ia) (regions ! ib),
                             ib := regionE (regions ! ia) (regions ! ib)])
                         (depth + 1) st = Inl e
                       \<or> (split_regions orc
                             ((regions @ [regionC (regions ! ia) (regions ! ib)])
                                [ia := regionD (regions ! ia) (regions ! ib),
                                 ib := regionE (regions ! ia) (regions ! ib)])
                             (depth + 1) st
                            = Inr (False,
                                   (regions @ [regionC (regions ! ia) (regions ! ib)])
                                     [ia := regionD (regions ! ia) (regions ! ib),
                                      ib := regionE (regions ! ia) (regions ! ib)], st)
                          \<and> split_loopB orc depth ia stopB (ib + 1) regions st = Inl e))))))
   \<and> (solver_round orc guess st = Inl e \<longleftrightarrow>
        find_regions orc st = Inl e
        \<or> (\<exists>regions. find_regions orc st = Inr (False, regions, st) \<and>
             (split_regions orc regions 0 st = Inl e
              \<or> (split_regions orc regions 0 st = Inr (False, regions, st) \<and>
                  (if mines_left st = 0 then sweep_fields orc st (find_remaining st) = Inl e
                   else find_remaining st \<noteq> [] \<and>
                        (if 0 \<le> guess \<and> guess < int (length (find_remaining st))
                         then sweep_field orc st (find_remaining st ! nat guess) = Inl e
                         else e = IndexError))))))
   \<and> (solver_round orc (guesses k) st = Inl e \<longrightarrow> solver_loop orc guesses k st = Some (Inl e))
   \<and> (solver_round orc (guesses k) st = Inr (False, st1) \<longrightarrow>
        solver_loop orc guesses k st = solver_loop orc guesses (Suc k) st1)
   \<and> (find_regions orc st = Inl Explosion \<or> split_regions orc regions depth st = Inl Explosion
        \<or> solver_round orc guess st = Inl Explosion \<longrightarrow> (\<exists>c. orc c = Boom))"
proof -
  have 1: "orc f = Boom \<longrightarrow> sweep_field orc st f = Inl Explosion"
    by (simp add: sweep_field_Explosion)
  have 7: "ia < stopA \<longrightarrow>
        (split_loopA orc depth stopA ia regions st = Inl e \<longleftrightarrow>
           split_loopB orc depth ia (length regions) (ia + 1) regions st = Inl e
           \<or> (split_loopB orc depth ia (length regions) (ia + 1) regions st
                 = Inr (False, regions, st)
              \<and> split_loopA orc depth stopA (ia + 1) regions st = Inl e))"
    using split_loopA_raises by blast
  have 8: "ib < stopB \<and> ia < length regions \<and> ib < length regions \<longrightarrow>
        (split_loopB orc depth ia stopB ib regions st = Inl e \<longleftrightarrow>
          (if length (regionC_fields (regions ! ia) (regions ! ib)) = 0
              \<or> (length (regionD_fields (regions ! ia) (regions ! ib)) = 0
                 \<and> length (regionE_fields (regions ! ia) (regions ! ib)) = 0)
           then split_loopB orc depth ia stopB (ib + 1) regions st = Inl e
           else check_CDE orc st (regions ! ia) (regions ! ib) = Inl e
                \<or> (check_CDE orc st (regions ! ia) (regions ! ib) = Inr (False, st)
                   \<and> (split_regions orc
                         ((regions @ [regionC (regions ! ia) (regions ! ib)])
                            [ia := regionD (regions ! ia) (regions ! ib),
                             ib := regionE (regions ! ia) (regions ! ib)])
                         (depth + 1) st = Inl e
                       \<or> (split_regions orc
                             ((regions @ [regionC (regions ! ia) (regions ! ib)])
                                [ia := regionD (regions ! ia) (regions ! ib),
                                 ib := regionE (regions ! ia) (regions ! ib)])
                             (depth + 1) st
                            = Inr (False,
                                   (regions @ [regionC (regions ! ia) (regions ! ib)])
                                     [ia := regionD (regions ! ia) (regions ! ib),
                                      ib := regionE (regions ! ia) (regions ! ib)], st)
                          \<and> split_loopB orc depth ia stopB (ib + 1) regions st = Inl e)))))"
    using split_loopB_raises[of ib stopB ia regions orc depth st e] by blast
  have 10: "solver_round orc (guesses k) st = Inl e \<longrightarrow> solver_loop orc guesses k st = Some (Inl e)"
    using solver_loop_raises by blast
  have 11: "solver_round orc (guesses k) st = Inr (False, st1) \<longrightarrow>
        solver_loop orc guesses k st = solver_loop orc guesses (Suc k) st1"
    using solver_loop_continues by blast
  have 12: "find_regions orc st = Inl Explosion \<or> split_regions orc regions depth st = Inl Explosion
        \<or> solver_round orc guess st = Inl Explosion \<longrightarrow> (\<exists>c. orc c = Boom)"
    using find_regions_Explosion[of orc st] split_Explosion_all(1)[of orc regions depth st]
      solver_round_Explosion[of orc guess st]
    by blast
  show ?thesis
    by (intro conjI 1 sweep_fields_raises check_region_raises check_CDE_raises
        find_regions_raises split_regions_raises 7 8 solver_round_raises 10 11 12)
qed

theorem mine_hit_is_exception_witness:
  "sweep_field orcB boardB (0, 0) = Inl Explosion
   \<and> check_region orcT boardZ (region_at boardZ 0 0) = Inl Explosion
   \<and> find_regions orcT boardZ = Inl Explosion
   \<and> solver_round orcT 0 boardZ = Inl Explosion
   \<and> solver_loop orcT (\<lambda>k. 0) 0 boardZ = Some (Inl Explosion)
   \<and> check_CDE orcY board1 R1 R2 = Inl Explosion
   \<and> split_regions orcY [R1, R2, R4] 0 board1 = Inl Explosion
   \<and> find_regions orcY board1 = Inr (False, [R1, R2, R4], board1)
   \<and> solver_round orcY 0 board1 = Inl Explosion
   \<and> solver_loop orcY (\<lambda>k. 0) 0 board1 = Some (Inl Explosion)"
proof -
  note TB = mine_hit_is_exception [where orc = orcB and st = boardB and f = "(0, 0)"]
  have b: "sweep_field orcB boardB (0, 0) = Inl Explosion"
    using TB [THEN conjunct1] by (simp add: orcB_def)

  note TZ = mine_hit_is_exception
    [where orc = orcT and st = boardZ and f = "(1, 0)" and fs = "[(1, 0)]" and e = Explosion
       and r = "region_at boardZ 0 0" and guess = 0 and guesses = "\<lambda>k. 0" and k = 0]
  have z1: "sweep_field orcT boardZ (1, 0) = Inl Explosion"
    using TZ [THEN conjunct1] by (simp add: orcT_def)
  have "[(1, 0)] = [] @ (1, 0) # [] \<and> sweep_fields orcT boardZ [] = Inr boardZ
        \<and> sweep_field orcT boardZ (1, 0) = Inl Explosion"
    using z1 by simp
  then have "\<exists>pre f rest s. [(1, 0)] = pre @ f # rest \<and> sweep_fields orcT boardZ pre = Inr s
                         \<and> sweep_field orcT s f = Inl Explosion"
    by blast
  with TZ [THEN conjunct2, THEN conjunct1]
  have z2: "sweep_fields orcT boardZ [(1, 0)] = Inl Explosion" by blast
  have rz: "region_at boardZ 0 0 = \<lparr>mines_min = 0, mines_max = 0, fields_r = [(1, 0)]\<rparr>"
    by (simp add: region_at_def find_adjacent_type_def boardZ_def py_range_def upto.simps)
  from TZ [THEN conjunct2, THEN conjunct2, THEN conjunct1] z2
  have z3: "check_region orcT boardZ (region_at boardZ 0 0) = Inl Explosion"
    by (simp add: rz)
  have ez: "extractable boardZ (0, 0)"
    by (simp add: extractable_def numbered_def find_adjacent_type_def boardZ_def py_range_def upto.simps)
  have sz: "scan_order boardZ = [] @ (0, 0) # [(1, 0)]"
    by (simp add: grid_eval boardZ_def)
  have "scan_order boardZ = [] @ (0, 0) # [(1, 0)]
        \<and> find_regions_loop orcT (False, [], boardZ) [] = Inr (False, [], boardZ)
        \<and> extractable boardZ (fst (0, 0), snd (0, 0))
        \<and> (\<forall>other \<in> set []. set (fields_r (region_at boardZ (fst (0, 0)) (snd (0, 0))))
                                  \<noteq> set (fields_r other))
        \<and> check_region orcT boardZ (region_at boardZ (fst (0, 0)) (snd (0, 0))) = Inl Explosion"
    using sz ez z3 by simp
  then have "\<exists>pre c rest pm regs s.
           scan_order boardZ = pre @ c # rest
           \<and> find_regions_loop orcT (False, [], boardZ) pre = Inr (pm, regs, s)
           \<and> extractable s c
           \<and> (\<forall>other \<in> set regs.
                 set (fields_r (region_at s (fst c) (snd c))) \<noteq> set (fields_r other))
           \<and> check_region orcT s (region_at s (fst c) (snd c)) = Inl Explosion"
    by (intro exI[of _ "[]"] exI[of _ "(0, 0)"] exI[of _ "[(1, 0)]"] exI[of _ False]
        exI[of _ boardZ]) simp
  with TZ [THEN conjunct2, THEN conjunct2, THEN conjunct2, THEN conjunct2, THEN conjunct1]
  have z4: "find_regions orcT boardZ = Inl Explosion" by blast
  from TZ [THEN conjunct2, THEN conjunct2, THEN conjunct2, THEN conjunct2, THEN conjunct2,
           THEN conjunct2, THEN conjunct2, THEN conjunct2, THEN conjunct1] z4
  have z5: "solver_round orcT 0 boardZ = Inl Explosion" by blast
  from TZ [THEN conjunct2, THEN conjunct2, THEN conjunct2, THEN conjunct2, THEN conjunct2,
           THEN conjunct2, THEN conjunct2, THEN conjunct2, THEN conjunct2, THEN conjunct1] z5
  have z6: "solver_loop orcT (\<lambda>k. 0) 0 boardZ = Some (Inl Explosion)" by blast

  note TY = mine_hit_is_exception
    [where orc = orcY and st = board1 and e = Explosion and r = "regionD R1 R2"
       and A = R1 and B = R2 and regions = "[R1, R2, R4]" and depth = 0
       and stopA = 3 and ia = 0 and stopB = 3 and ib = 1
       and guess = 0 and guesses = "\<lambda>k. 0" and k = 0]
  have rc: "regionC R1 R2 = \<lparr>mines_min = 1, mines_max = 1, fields_r = [(1, 0), (1, 1)]\<rparr>"
    and rd: "regionD R1 R2 = \<lparr>mines_min = 0, mines_max = 0, fields_r = [(0, 1)]\<rparr>"
    by (simp_all add: regionC_def regionD_def regionC_fields_def regionD_fields_def
        regionE_fields_def regionC_mines_min_def regionC_mines_max_def R1_def R2_def)
  have y1: "check_region orcY board1 (regionC R1 R2) = Inr (False, board1)"
    by (simp add: rc check_region_def)
  have "sweep_fields orcY board1 (fields_r (regionD R1 R2)) = Inl Explosion"
    by (simp add: rd sweep_field_def orcY_def)
  with TY [THEN conjunct2, THEN conjunct2, THEN conjunct1]
  have y2: "check_region orcY board1 (regionD R1 R2) = Inl Explosion"
    by (simp add: rd)
  from y1 y2 TY [THEN conjunct2, THEN conjunct2, THEN conjunct2, THEN conjunct1]
  have y3: "check_CDE orcY board1 R1 R2 = Inl Explosion" by blast
  have cf: "regionC_fields R1 R2 = [(1, 0), (1, 1)]" and df: "regionD_fields R1 R2 = [(0, 1)]"
    by (simp_all add: regionC_fields_def regionD_fields_def R1_def R2_def)
  from TY [THEN conjunct2, THEN conjunct2, THEN conjunct2, THEN conjunct2, THEN conjunct2,
           THEN conjunct2, THEN conjunct2, THEN conjunct1] y3
  have y4: "split_loopB orcY 0 0 3 1 [R1, R2, R4] board1 = Inl Explosion"
    by (simp add: cf df)
  from TY [THEN conjunct2, THEN conjunct2, THEN conjunct2, THEN conjunct2, THEN conjunct2,
           THEN conjunct2, THEN conjunct1] y4
  have y5: "split_loopA orcY 0 3 0 [R1, R2, R4] board1 = Inl Explosion"
    by (simp add: eval_nat_numeral)
  from TY [THEN conjunct2, THEN conjunct2, THEN conjunct2, THEN conjunct2, THEN conjunct2,
           THEN conjunct1] y5
  have y6: "split_regions orcY [R1, R2, R4] 0 board1 = Inl Explosion"
    by (simp add: MAX_RECURSION_DEPTH_def eval_nat_numeral)
  have y7: "find_regions orcY board1 = Inr (False, [R1, R2, R4], board1)"
    by (simp add: find_eval board_eval R1_def R2_def R4_def)
  from y6 y7 have "\<exists>regions. find_regions orcY board1 = Inr (False, regions, board1) \<and>
             (split_regions orcY regions 0 board1 = Inl Explosion
              \<or> (split_regions orcY regions 0 board1 = Inr (False, regions, board1) \<and>
                  (if mines_left board1 = 0
                   then sweep_fields orcY board1 (find_remaining board1) = Inl Explosion
                   else find_remaining board1 \<noteq> [] \<and>
                        (if 0 \<le> (0::int) \<and> 0 < int (length (find_remaining board1))
                         then sweep_field orcY board1 (find_remaining board1 ! nat 0) = Inl Explosion
                         else Explosion = IndexError))))"
    by blast
  with TY [THEN conjunct2, THEN conjunct2, THEN conjunct2, THEN conjunct2, THEN conjunct2,
           THEN conjunct2, THEN conjunct2, THEN conjunct2, THEN conjunct1]
  have y8: "solver_round orcY 0 board1 = Inl Explosion" by blast
  from TY [THEN conjunct2, THEN conjunct2, THEN conjunct2, THEN conjunct2, THEN conjunct2,
           THEN conjunct2, THEN conjunct2, THEN conjunct2, THEN conjunct2, THEN conjunct1] y8
  have y9: "solver_loop orcY (\<lambda>k. 0) 0 board1 = Some (Inl Explosion)" by blast
  from b z3 z4 z5 z6 y3 y6 y7 y8 y9 show ?thesis by simp
qed

text \<open>
  C4 as it is worded fails on a run whose first guess is a mine: the sweep hands back no
  result that could be tested, it ends by the exception, and so does the loop.
\<close>

theorem mine_hit_counterexample:
  "orcB (0, 0) = Boom
   \<and> sweep_field orcB boardB (0, 0) = Inl Explosion
   \<and> find_regions orcB boardB = Inr (False, [], boardB)
   \<and> split_regions orcB [] 0 boardB = Inr (False, [], boardB)
   \<and> find_remaining boardB = [(0, 0), (1, 0)]
   \<and> solver_loop orcB (\<lambda>k. 0) 0 boardB = Some (Inl Explosion)"
proof -
  have b: "orcB (0, 0) = Boom" by (simp add: orcB_def)
  then have s: "sweep_field orcB boardB (0, 0) = Inl Explosion" by (simp add: sweep_field_def)
  have fr: "find_regions orcB boardB = Inr (False, [], boardB)"
    by (simp add: find_eval grid_eval boardB_def)
  have sp: "split_regions orcB [] 0 boardB = Inr (False, [], boardB)"
    by (simp add: split_regions.simps split_loopA.simps MAX_RECURSION_DEPTH_def)
  have rem: "find_remaining boardB = [(0, 0), (1, 0)]"
    by (simp add: find_remaining_def grid_eval boardB_def)
  have ml: "mines_left boardB = 1" by (simp add: boardB_def)
  have "solver_round orcB 0 boardB = Inl Explosion"
    by (simp add: solver_round_def fr sp rem ml s)
  then have "solver_loop orcB (\<lambda>k. 0) 0 boardB = Some (Inl Explosion)"
    by (subst solver_loop.simps) simp
  with b s fr sp rem show ?thesis by simp
qed

end
